theory Spec2Isabelle
  imports Complex_Main
begin

section \<open>Persistent cache store (utils/storage)\<close>

text \<open>
  The class \<open>PersistentStorage\<close> keeps its entries in the browser's \<open>localStorage\<close>
  under the key prefix \<open>stock_app_cache_\<close>. Each entry is the JSON text of a
  \<open>CacheItem\<close>. The model keeps \<open>localStorage\<close> as a map from key strings to stored
  texts, each text given by what reading it yields: either the item that \<open>JSON.parse\<close>
  returns (\<open>Json item\<close>) or nothing, for a text on which the \<open>try\<close> block of the reader
  gives up (\<open>Garbled\<close>: the empty string, or a text that makes \<open>JSON.parse\<close> or the
  field access throw).

  Clock readings are the integers returned by \<open>Date.now()\<close>; one synchronous run of
  code reads one clock value. A time to live is any JavaScript number: a whole number of
  milliseconds (\<open>Finite\<close>; whole numbers are exact in doubles below \<open>2^53\<close>), or one
  of the three numbers that are not finite. Numbers with a fraction are not modelled.
\<close>

datatype jsnumber = Finite int | PlusInfinity | MinusInfinity | NaN

text \<open>\<open>now + ttl\<close>, for a clock reading \<open>now\<close>.\<close>

fun plus_number :: "int \<Rightarrow> jsnumber \<Rightarrow> jsnumber" where
  "plus_number now (Finite n) = Finite (now + n)"
| "plus_number now PlusInfinity = PlusInfinity"
| "plus_number now MinusInfinity = MinusInfinity"
| "plus_number now NaN = NaN"

text \<open>\<open>ttl > 0\<close>.\<close>

fun positive :: "jsnumber \<Rightarrow> bool" where
  "positive (Finite n) = (0 < n)"
| "positive PlusInfinity = True"
| "positive MinusInfinity = False"
| "positive NaN = False"

text \<open>
  What a number is after \<open>JSON.stringify\<close> and \<open>JSON.parse\<close>: itself when finite, and
  \<open>null\<close> (\<open>None\<close>) otherwise, since JSON has no text for the other three.
\<close>

fun JSON_number :: "jsnumber \<Rightarrow> int option" where
  "JSON_number (Finite n) = Some n"
| "JSON_number PlusInfinity = None"
| "JSON_number MinusInfinity = None"
| "JSON_number NaN = None"

text \<open>The item as \<open>JSON.parse\<close> returns it; \<open>expiry\<close> is a number or \<open>null\<close>.\<close>

record 'v CacheItem =
  val :: 'v
  timestamp :: int
  expiry :: "int option"

datatype 'v stored = Json "'v CacheItem" | Garbled

type_synonym 'v localStorage = "string \<rightharpoonup> 'v stored"

text \<open>The object returned by \<open>get\<close>: \<open>{ value, isExpired, timestamp }\<close>.\<close>

record 'v cached =
  cached_value :: 'v
  isExpired :: bool
  cached_timestamp :: int

definition storage_prefix :: string where
  "storage_prefix = ''stock_app_cache_''"

definition defaultTTL :: jsnumber where
  "defaultTTL = Finite (24 * 60 * 60 * 1000)"

definition startsWith :: "string \<Rightarrow> string \<Rightarrow> bool" where
  "startsWith s p = (take (length p) s = p)"

text \<open>The comparison \<open>now > item.expiry\<close>; a \<open>null\<close> is compared as \<open>0\<close>.\<close>

definition past :: "int \<Rightarrow> int option \<Rightarrow> bool" where
  "past now e = (case e of Some n \<Rightarrow> now > n | None \<Rightarrow> now > 0)"

text \<open>
  \<open>clearExpired\<close> walks over \<open>Object.keys(localStorage)\<close> and removes every key of
  the namespace whose item parses and has \<open>now > item.expiry\<close>; a key whose text does
  not parse is left alone.
\<close>

definition clearExpired :: "int \<Rightarrow> 'v localStorage \<Rightarrow> 'v localStorage" where
  "clearExpired now ls =
     (\<lambda>k. if startsWith k storage_prefix
          then (case ls k of
                  None \<Rightarrow> None
                | Some Garbled \<Rightarrow> Some Garbled
                | Some (Json item) \<Rightarrow> if past now (expiry item) then None else Some (Json item))
          else ls k)"

text \<open>
  \<open>set(key, value, ttl)\<close> builds \<open>{ value, timestamp: now, expiry: now + ttl }\<close> and
  writes its JSON text. Two things are given from outside:
  \<^item> \<open>J\<close>, what a value is after \<open>JSON.stringify\<close> and \<open>JSON.parse\<close>: the value itself
    for plain data, but \<open>null\<close> for \<open>NaN\<close>, a string for a \<open>Date\<close>, nothing for
    \<open>undefined\<close>;
  \<^item> \<open>throws\<close>, whether \<open>JSON.stringify\<close> or \<open>localStorage.setItem\<close> throws on this
    call (a value JSON refuses, the quota exceeded); the \<open>catch\<close> block then runs
    \<open>clearExpired\<close> and nothing is stored.
\<close>

definition storage_set ::
  "('v \<Rightarrow> 'v) \<Rightarrow> bool \<Rightarrow> int \<Rightarrow> string \<Rightarrow> 'v \<Rightarrow> jsnumber \<Rightarrow> 'v localStorage \<Rightarrow> 'v localStorage" where
  "storage_set J throws now key v ttl ls =
     (let item_expiry = plus_number now ttl
      in if throws then clearExpired now ls
         else ls(storage_prefix @ key \<mapsto>
                   Json \<lparr>val = J v, timestamp = now, expiry = JSON_number item_expiry\<rparr>))"

text \<open>\<open>get(key)\<close>: \<open>null\<close> is \<open>None\<close>. The entry is read, never written.\<close>

definition storage_get :: "int \<Rightarrow> string \<Rightarrow> 'v localStorage \<Rightarrow> 'v cached option" where
  "storage_get now key ls =
     (case ls (storage_prefix @ key) of
        None \<Rightarrow> None
      | Some Garbled \<Rightarrow> None
      | Some (Json item) \<Rightarrow>
          Some \<lparr>cached_value = val item, isExpired = past now (expiry item),
                cached_timestamp = timestamp item\<rparr>)"

definition remove :: "string \<Rightarrow> 'v localStorage \<Rightarrow> 'v localStorage" where
  "remove key ls = ls(storage_prefix @ key := None)"

definition clearAll :: "'v localStorage \<Rightarrow> 'v localStorage" where
  "clearAll ls = (\<lambda>k. if startsWith k storage_prefix then None else ls k)"

section \<open>Bounded concurrency queue (utils/requestQueue)\<close>

text \<open>
  A queued item is \<open>{ task, resolve, reject }\<close>: an operation closure with the two
  functions that settle the handle returned by \<open>add\<close>. The model names the item by a
  number, the position of its \<open>add\<close> call among all \<open>add\<close> calls; what the operation
  does and how its handle settles is recorded outside the queue, in the system state
  below. \<open>concurrency\<close> is the integer given to the constructor (the module builds its
  only instance with 3); \<open>activeCount\<close> is kept as an integer as well, so that staying
  non-negative is a property and not a typing artefact.
\<close>

record RequestQueue =
  queue :: "nat list"
  activeCount :: int
  concurrency :: int

definition new_RequestQueue :: "int \<Rightarrow> RequestQueue" where
  "new_RequestQueue c = \<lparr>queue = [], activeCount = 0, concurrency = c\<rparr>"

text \<open>
  \<open>processNext\<close> admits at most one item: it returns the new queue and the item whose
  \<open>task()\<close> it invoked, if any.
\<close>

definition processNext :: "RequestQueue \<Rightarrow> RequestQueue \<times> nat option" where
  "processNext q =
     (if activeCount q \<ge> concurrency q \<or> length (queue q) = 0 then (q, None)
      else (case queue q of
              [] \<Rightarrow> (q, None)
            | item # rest \<Rightarrow> (q\<lparr>queue := rest, activeCount := activeCount q + 1\<rparr>, Some item)))"

definition add :: "nat \<Rightarrow> RequestQueue \<Rightarrow> RequestQueue \<times> nat option" where
  "add item q = processNext (q\<lparr>queue := queue q @ [item]\<rparr>)"

text \<open>The \<open>.finally\<close> callback attached to an invoked task.\<close>

definition on_finally :: "RequestQueue \<Rightarrow> RequestQueue \<times> nat option" where
  "on_finally q = processNext (q\<lparr>activeCount := activeCount q - 1\<rparr>)"

section \<open>Domain records (types/stock) and errors\<close>

text \<open>
  The prices of a stock are JavaScript values: numbers as a rule, but whatever the JSON
  of a response held where the code copies a field of it. They are kept as an unspecified
  type \<open>'n\<close>, and the operators the code applies to them are taken as given, with
  whatever JavaScript makes of them (double arithmetic, conversions, \<open>NaN\<close>):
  \<^item> \<open>js_lit n\<close>, the number literal \<open>n\<close>;
  \<^item> \<open>js_sub a b\<close>, \<open>js_add a b\<close>, \<open>js_div a b\<close>, \<open>js_mul a b\<close>: \<open>a - b\<close>, \<open>a + b\<close>,
    \<open>a / b\<close>, \<open>a * b\<close>;
  \<^item> \<open>js_neq a b\<close>, the test \<open>a !== b\<close>;
  \<^item> \<open>js_toFixed2 a\<close>, \<open>Number(a.toFixed(2))\<close>.
\<close>

record 'n jsops =
  js_lit :: "int \<Rightarrow> 'n"
  js_sub :: "'n \<Rightarrow> 'n \<Rightarrow> 'n"
  js_add :: "'n \<Rightarrow> 'n \<Rightarrow> 'n"
  js_div :: "'n \<Rightarrow> 'n \<Rightarrow> 'n"
  js_mul :: "'n \<Rightarrow> 'n \<Rightarrow> 'n"
  js_neq :: "'n \<Rightarrow> 'n \<Rightarrow> bool"
  js_toFixed2 :: "'n \<Rightarrow> 'n"

record 'n Stock =
  code :: string
  name :: string
  currentPrice :: 'n
  predictedPrice1 :: 'n
  predictedPrice2 :: 'n
  change1 :: 'n
  changePercent1 :: 'n
  change2 :: 'n
  changePercent2 :: 'n
  averageChange :: 'n
  averageChangePercent :: 'n

datatype symbol = SymbolString string | SymbolNumber nat

record BackendStock =
  symbol :: symbol
  stock_name :: string
  stock_keywords :: "string list"

text \<open>Values a promise can be rejected with: \<open>Error\<close> objects, \<open>ApiError\<close> objects
  \<open>{ code, message, details }\<close>, and anything else.\<close>

datatype thrown = Error string | ApiError string string thrown | NonError string

datatype 'v outcome = Fulfilled 'v | Rejected thrown

text \<open>The cached responses: \<open>ApiResponse<T>\<close>, whose \<open>data\<close> is a stock list for
  the key \<open>stocks_list\<close> and some other shape for the per-stock keys.\<close>

datatype 'n payload = StockListData "'n Stock list" | OtherData string

record 'n ApiResponse =
  success :: bool
  data :: "'n payload"
  response_timestamp :: string

section \<open>The running system: store, queue and suspended calls\<close>

text \<open>
  The operations given to the queue are the \<open>fetchLogic\<close> closures of the API
  functions and the per-stock closure inside \<open>fetchStocks\<close>; they are opaque network
  code, named here by the function and arguments that built them. Each is an \<open>async\<close>
  function: calling it returns a promise and does not throw; the promise settles later,
  fulfilled or rejected, or never.
\<close>

datatype operation =
    StocksListLogic
  | StockPricesLogic string
  | StockDetailLogic string
  | StockPredictionLogic string
  | HistoricalDataLogic string nat
  | HistoricalPredictionsLogic string nat
  | OtherLogic string

text \<open>What \<open>fetchWithCache\<close> keeps across its \<open>await\<close>: the key and the lookup
  result \<open>cached\<close>.\<close>

record 'v frame =
  frame_key :: string
  frame_cached :: "'v cached option"

text \<open>
  The state of the module and of what it has set in motion:
  \<^item> \<open>storage\<close> and \<open>apiQueue\<close>, the two singletons;
  \<^item> \<open>tasks\<close>, the operation of every \<open>add\<close> call so far, in call order (task \<open>t\<close>
    is \<open>tasks ! t\<close>);
  \<^item> \<open>invoked\<close>, the tasks whose operation has been invoked, in invocation order;
  \<^item> \<open>running\<close>, the invoked tasks whose promise is still pending;
  \<^item> \<open>draining\<close>, the tasks whose promise has settled (so the handle has settled too)
    and whose \<open>.finally\<close> callback has not run yet;
  \<^item> \<open>handles\<close>, how the handle returned by \<open>add\<close> has settled;
  \<^item> \<open>awaiting\<close>, the \<open>fetchWithCache\<close> calls suspended at
    \<open>await apiQueue.add(fetcher)\<close>, by task;
  \<^item> \<open>results\<close>, how those calls have settled.
\<close>

record 'v sys =
  storage :: "'v localStorage"
  apiQueue :: RequestQueue
  tasks :: "operation list"
  invoked :: "nat list"
  running :: "nat list"
  draining :: "nat list"
  handles :: "nat \<rightharpoonup> 'v outcome"
  awaiting :: "nat \<rightharpoonup> 'v frame"
  results :: "nat \<rightharpoonup> 'v outcome"

definition init_sys :: "int \<Rightarrow> 'v localStorage \<Rightarrow> 'v sys" where
  "init_sys c ls =
     \<lparr>storage = ls, apiQueue = new_RequestQueue c, tasks = [], invoked = [], running = [],
      draining = [], handles = Map.empty, awaiting = Map.empty, results = Map.empty\<rparr>"

text \<open>\<open>item.task()\<close> has been called for the item \<open>processNext\<close> returned.\<close>

definition started :: "nat option \<Rightarrow> 'v sys \<Rightarrow> 'v sys" where
  "started r s =
     (case r of
        None \<Rightarrow> s
      | Some t \<Rightarrow> s\<lparr>invoked := invoked s @ [t], running := running s @ [t]\<rparr>)"

text \<open>\<open>apiQueue.add(task)\<close>, returning the name of the new task.\<close>

definition apiQueue_add :: "operation \<Rightarrow> 'v sys \<Rightarrow> nat \<times> 'v sys" where
  "apiQueue_add task s =
     (let t = length (tasks s);
          (q, r) = add t (apiQueue s)
      in (t, started r (s\<lparr>apiQueue := q, tasks := tasks s @ [task]\<rparr>)))"

section \<open>Cache-aside orchestrator (services/api, \<open>fetchWithCache\<close>)\<close>

text \<open>
  An \<open>async\<close> function runs synchronously up to its first \<open>await\<close> on a pending
  promise. \<open>fetchWithCache\<close> either returns at once or is suspended on the handle of the
  task it has just added.
\<close>

datatype 'v progress = Returned 'v | Awaiting nat

definition fetchWithCache ::
  "string \<Rightarrow> operation \<Rightarrow> bool \<Rightarrow> int \<Rightarrow> 'v sys \<Rightarrow> 'v progress \<times> 'v sys" where
  "fetchWithCache key fetcher forceRefresh now s =
     (let cached = storage_get now key (storage s);
          queued = (let (t, s') = apiQueue_add fetcher s
                    in (Awaiting t,
                        s'\<lparr>awaiting := (awaiting s')(t \<mapsto> \<lparr>frame_key = key, frame_cached = cached\<rparr>)\<rparr>))
      in case cached of
           None \<Rightarrow> queued
         | Some c \<Rightarrow> if \<not> isExpired c \<and> \<not> forceRefresh then (Returned (cached_value c), s)
                     else queued)"

text \<open>
  The rest of \<open>fetchWithCache\<close>, run when the handle has settled with \<open>out\<close>, at clock
  reading \<open>now\<close>; \<open>J\<close> and \<open>throws\<close> are passed on to \<open>storage.set\<close>.
\<close>

definition fetchWithCache_resume ::
  "('v \<Rightarrow> 'v) \<Rightarrow> 'v frame \<Rightarrow> 'v outcome \<Rightarrow> int \<Rightarrow> bool \<Rightarrow> 'v localStorage \<Rightarrow>
     'v outcome \<times> 'v localStorage" where
  "fetchWithCache_resume J fr out now throws ls =
     (case out of
        Fulfilled d \<Rightarrow> (Fulfilled d, storage_set J throws now (frame_key fr) d defaultTTL ls)
      | Rejected error \<Rightarrow>
          (case frame_cached fr of
             Some c \<Rightarrow> (Fulfilled (cached_value c), ls)
           | None \<Rightarrow> (Rejected error, ls)))"

text \<open>
  The events of the event loop that touch the module:
  \<^item> \<open>Call\<close>: some code calls \<open>fetchWithCache(key, fetcher, forceRefresh)\<close>;
  \<^item> \<open>Add\<close>: some code calls \<open>apiQueue.add\<close> directly;
  \<^item> \<open>Settle t out\<close>: the promise of the running task \<open>t\<close> settles, and
    \<open>.then(item.resolve).catch(item.reject)\<close> settles the handle the same way;
  \<^item> \<open>Finally t\<close>: the \<open>.finally\<close> callback of task \<open>t\<close> runs;
  \<^item> \<open>Resume t\<close>: the \<open>fetchWithCache\<close> call suspended on task \<open>t\<close> continues;
  \<^item> \<open>ClearAll\<close>: some code calls \<open>storage.clearAll()\<close>.
  An event that cannot happen in the state gives \<open>None\<close>.
\<close>

datatype 'v event =
    Call string operation bool int
  | Add operation
  | Settle nat "'v outcome"
  | Finally nat
  | Resume nat int bool
  | ClearAll

fun step :: "('v \<Rightarrow> 'v) \<Rightarrow> 'v sys \<Rightarrow> 'v event \<Rightarrow> 'v sys option" where
  "step J s (Call key fetcher forceRefresh now) =
     Some (snd (fetchWithCache key fetcher forceRefresh now s))"
| "step J s (Add task) = Some (snd (apiQueue_add task s))"
| "step J s (Settle t out) =
     (if t \<in> set (running s)
      then Some (s\<lparr>running := remove1 t (running s), draining := draining s @ [t],
                   handles := (case out of
                                 Fulfilled v \<Rightarrow> (handles s)(t \<mapsto> Fulfilled v)
                               | Rejected e \<Rightarrow> (handles s)(t \<mapsto> Rejected e))\<rparr>)
      else None)"
| "step J s (Finally t) =
     (if t \<in> set (draining s)
      then (let (q, r) = on_finally (apiQueue s)
            in Some (started r (s\<lparr>apiQueue := q, draining := remove1 t (draining s)\<rparr>)))
      else None)"
| "step J s (Resume t now throws) =
     (case awaiting s t of
        None \<Rightarrow> None
      | Some fr \<Rightarrow>
          (case handles s t of
             None \<Rightarrow> None
           | Some out \<Rightarrow>
               (let (res, ls) = fetchWithCache_resume J fr out now throws (storage s)
                in Some (s\<lparr>storage := ls, awaiting := (awaiting s)(t := None),
                            results := (results s)(t \<mapsto> res)\<rparr>))))"
| "step J s ClearAll = Some (s\<lparr>storage := clearAll (storage s)\<rparr>)"

fun run :: "('v \<Rightarrow> 'v) \<Rightarrow> 'v event list \<Rightarrow> 'v sys \<Rightarrow> 'v sys option" where
  "run J [] s = Some s"
| "run J (e # es) s = (case step J s e of None \<Rightarrow> None | Some s' \<Rightarrow> run J es s')"

section \<open>Invariants of the running system\<close>

text \<open>
  Admission order: the tasks invoked so far, followed by the tasks still pending, are
  the tasks in the order of their \<open>add\<close> calls.
\<close>

definition fifo_inv :: "'v sys \<Rightarrow> bool" where
  "fifo_inv s = (invoked s @ queue (apiQueue s) = [0..<length (tasks s)])"

text \<open>Every unit of \<open>activeCount\<close> is an invoked task whose \<open>.finally\<close> callback has not
  run yet.\<close>

definition count_inv :: "'v sys \<Rightarrow> bool" where
  "count_inv s = (activeCount (apiQueue s) = int (length (running s)) + int (length (draining s)))"

text \<open>The capacity never changes and, when it is not negative, bounds \<open>activeCount\<close>.\<close>

definition cap_inv :: "int \<Rightarrow> 'v sys \<Rightarrow> bool" where
  "cap_inv c s = (concurrency (apiQueue s) = c \<and> activeCount (apiQueue s) \<le> max 0 c)"

text \<open>The tasks occupying a slot are among the invoked ones.\<close>

definition bound_inv :: "'v sys \<Rightarrow> bool" where
  "bound_inv s = (length (running s) + length (draining s) \<le> length (invoked s))"

text \<open>A task waits only while the queue is at capacity.\<close>

definition busy_inv :: "'v sys \<Rightarrow> bool" where
  "busy_inv s = (queue (apiQueue s) = [] \<or> concurrency (apiQueue s) \<le> activeCount (apiQueue s))"

text \<open>How the operation of task \<open>t\<close> settled in a sequence of events (its first
  \<open>Settle\<close> event), and how many \<open>.finally\<close> callbacks ran.\<close>

fun settled_as :: "'v event list \<Rightarrow> nat \<Rightarrow> 'v outcome option" where
  "settled_as [] t = None"
| "settled_as (Settle u out # es) t = (if u = t then Some out else settled_as es t)"
| "settled_as (e # es) t = settled_as es t"

fun finally_count :: "'v event list \<Rightarrow> nat" where
  "finally_count [] = 0"
| "finally_count (Finally t # es) = Suc (finally_count es)"
| "finally_count (e # es) = finally_count es"

text \<open>A running task is invoked, occurs once, and its handle is still pending; only
  invoked tasks have a settled handle.\<close>

definition settle_inv :: "'v sys \<Rightarrow> bool" where
  "settle_inv s =
     (distinct (running s) \<and> (\<forall>t \<in> set (running s). t \<in> set (invoked s)) \<and>
      (\<forall>t. handles s t \<noteq> None \<longrightarrow> t \<in> set (invoked s)) \<and>
      (\<forall>t \<in> set (running s). handles s t = None))"

section \<open>Freshness probe and the API functions (services/api)\<close>

text \<open>The probe \<open>storage.get(key)?.isExpired === false\<close>: an entry exists and has not
  expired.\<close>

definition fresh_entry :: "int \<Rightarrow> string \<Rightarrow> 'v localStorage \<Rightarrow> bool" where
  "fresh_entry now key ls =
     (case storage_get now key ls of None \<Rightarrow> False | Some c \<Rightarrow> isExpired c = False)"

text \<open>Decimal text of a natural number, as a template string does for \<open>days\<close> and
  \<open>String(item.symbol)\<close> for a numeric symbol.\<close>

fun showNat :: "nat \<Rightarrow> string" where
  "showNat n =
     (if n < 10 then [''0123456789'' ! n]
      else showNat (n div 10) @ [''0123456789'' ! (n mod 10)])"

declare showNat.simps [simp del]

definition mapToFrontendStock :: "'n jsops \<Rightarrow> BackendStock \<Rightarrow> 'n Stock" where
  "mapToFrontendStock A item =
     \<lparr>code = (case symbol item of SymbolString s \<Rightarrow> s | SymbolNumber n \<Rightarrow> showNat n),
      name = stock_name item,
      currentPrice = js_lit A 10,
      predictedPrice1 = js_lit A 0,
      predictedPrice2 = js_lit A 0,
      change1 = js_lit A 0,
      changePercent1 = js_lit A 0,
      change2 = js_lit A 0,
      changePercent2 = js_lit A 0,
      averageChange = js_lit A 0,
      averageChangePercent = js_lit A 0\<rparr>"

text \<open>The API functions that only wrap \<open>fetchWithCache\<close>: their synchronous part, up
  to the \<open>await\<close> inside \<open>fetchWithCache\<close>. None of them passes \<open>forceRefresh\<close>.\<close>

definition fetchStockDetail :: "string \<Rightarrow> int \<Rightarrow> 'v sys \<Rightarrow> 'v progress \<times> 'v sys" where
  "fetchStockDetail c now s =
     (let cacheKey = ''stock_detail_'' @ c
      in fetchWithCache cacheKey (StockDetailLogic c) False now s)"

definition fetchStockPrediction :: "string \<Rightarrow> int \<Rightarrow> 'v sys \<Rightarrow> 'v progress \<times> 'v sys" where
  "fetchStockPrediction c now s =
     (let cacheKey = ''stock_prediction_'' @ c
      in fetchWithCache cacheKey (StockPredictionLogic c) False now s)"

definition fetchHistoricalData ::
  "string \<Rightarrow> nat \<Rightarrow> int \<Rightarrow> 'v sys \<Rightarrow> 'v progress \<times> 'v sys" where
  "fetchHistoricalData c days now s =
     (let cacheKey = ''stock_history_'' @ c @ ''_'' @ showNat days
      in fetchWithCache cacheKey (HistoricalDataLogic c days) False now s)"

definition fetchHistoricalPredictions ::
  "string \<Rightarrow> nat \<Rightarrow> int \<Rightarrow> 'v sys \<Rightarrow> 'v progress \<times> 'v sys" where
  "fetchHistoricalPredictions c days now s =
     (let cacheKey = ''stock_history_pred_'' @ c @ ''_'' @ showNat days
      in fetchWithCache cacheKey (HistoricalPredictionsLogic c days) False now s)"

section \<open>Background prefetch (\<open>prefetchAllStocksDetails\<close>)\<close>

text \<open>The loop has no \<open>await\<close>: it runs in one go. The promise of each call it makes
  gets \<open>.catch(() => { })\<close> and is dropped, so only the state after the call is kept.
  \<open>fetchHistoricalData\<close> is called with its default of 30 days.\<close>

fun prefetchAllStocksDetails :: "'n Stock list \<Rightarrow> int \<Rightarrow> 'v sys \<Rightarrow> 'v sys" where
  "prefetchAllStocksDetails [] now s = s"
| "prefetchAllStocksDetails (stock # stocks) now s =
     (let detailKey = ''stock_detail_'' @ code stock;
          historyKey = ''stock_history_'' @ code stock @ ''_30'';
          predictionKey = ''stock_prediction_'' @ code stock;
          hasDetail = fresh_entry now detailKey (storage s);
          hasHistory = fresh_entry now historyKey (storage s);
          hasPrediction = fresh_entry now predictionKey (storage s);
          s1 = (if \<not> hasDetail then snd (fetchStockDetail (code stock) now s) else s);
          s2 = (if \<not> hasHistory then snd (fetchHistoricalData (code stock) 30 now s1) else s1);
          s3 = (if \<not> hasPrediction then snd (fetchStockPrediction (code stock) now s2) else s2)
      in prefetchAllStocksDetails stocks now s3)"

text \<open>What the scheduler is meant to start, in the words of the specification: for every
  entity of the list and each of its three keys, nothing when a fresh entry exists, else
  the fetch of that kind.\<close>

definition wanted :: "int \<Rightarrow> 'v localStorage \<Rightarrow> 'n Stock \<Rightarrow> operation list" where
  "wanted now ls stock =
     (if fresh_entry now (''stock_detail_'' @ code stock) ls then []
      else [StockDetailLogic (code stock)]) @
     (if fresh_entry now (''stock_history_'' @ code stock @ ''_30'') ls then []
      else [HistoricalDataLogic (code stock) 30]) @
     (if fresh_entry now (''stock_prediction_'' @ code stock) ls then []
      else [StockPredictionLogic (code stock)])"

fun isDetailLogic :: "operation \<Rightarrow> bool" where
  "isDetailLogic (StockDetailLogic c) = True"
| "isDetailLogic _ = False"

section \<open>\<open>fetchStocks\<close> and \<open>refreshStocksData\<close>\<close>

text \<open>The text \<open>message\<close> falls back to when the thrown value is not an \<open>Error\<close>
  (eight CJK characters, here as their UTF-8 bytes).\<close>

definition fetchStocksFailedText :: string where
  "fetchStocksFailedText =
     [CHR 0xE7, CHR 0x8D, CHR 0xB2, CHR 0xE5, CHR 0x8F, CHR 0x96, CHR 0xE8, CHR 0x82,
      CHR 0xA1, CHR 0xE7, CHR 0xA5, CHR 0xA8, CHR 0xE5, CHR 0x88, CHR 0x97, CHR 0xE8,
      CHR 0xA1, CHR 0xA8, CHR 0xE5, CHR 0xA4, CHR 0xB1, CHR 0xE6, CHR 0x95, CHR 0x97]"

text \<open>\<open>fetchStocks\<close> up to its \<open>await fetchWithCache(...)\<close>.\<close>

definition fetchStocks :: "int \<Rightarrow> 'v sys \<Rightarrow> 'v progress \<times> 'v sys" where
  "fetchStocks now s =
     (let cacheKey = ''stocks_list''
      in fetchWithCache cacheKey StocksListLogic False now s)"

text \<open>The rest of \<open>fetchStocks\<close>, once the promise of \<open>fetchWithCache\<close> has settled
  with \<open>out\<close>: on success the prefetch is started on \<open>result.data\<close> and the result is
  returned; a rejection is rethrown as an \<open>ApiError\<close>. A \<open>data\<close> that is not a list
  makes the (asynchronous) prefetch fail before it does anything, which is only logged.\<close>

definition fetchStocks_settled ::
  "'n ApiResponse outcome \<Rightarrow> int \<Rightarrow> 'n ApiResponse sys \<Rightarrow>
     'n ApiResponse outcome \<times> 'n ApiResponse sys" where
  "fetchStocks_settled out now s =
     (case out of
        Fulfilled result \<Rightarrow>
          (Fulfilled result,
           (case data result of
              StockListData stocks \<Rightarrow> prefetchAllStocksDetails stocks now s
            | OtherData d \<Rightarrow> s))
      | Rejected error \<Rightarrow>
          (Rejected (ApiError ''FETCH_STOCKS_ERROR''
                       (case error of Error message \<Rightarrow> message | _ \<Rightarrow> fetchStocksFailedText)
                       error),
           s))"

definition refreshStocksData :: "int \<Rightarrow> 'v sys \<Rightarrow> 'v progress \<times> 'v sys" where
  "refreshStocksData now s = fetchStocks now (s\<lparr>storage := clearAll (storage s)\<rparr>)"

section \<open>Derived metrics of a stock\<close>



text \<open>
  An arithmetic to compute examples with: numbers that are small multiples of a power of
  two, on which the operators of JavaScript give the exact results. \<open>toFixed(2)\<close> rounds
  the magnitude to the nearest multiple of \<open>1/100\<close>, the larger one on a tie, and keeps
  the sign.
\<close>

definition exact_toFixed2 :: "rat \<Rightarrow> rat" where
  "exact_toFixed2 x =
     (if x < 0 then - (of_int \<lfloor>(- x) * 100 + 1 / 2\<rfloor> / 100)
      else of_int \<lfloor>x * 100 + 1 / 2\<rfloor> / 100)"

definition exact_ops :: "rat jsops" where
  "exact_ops =
     \<lparr>js_lit = of_int, js_sub = (\<lambda>a b. a - b), js_add = (\<lambda>a b. a + b),
      js_div = (\<lambda>a b. a / b), js_mul = (\<lambda>a b. a * b), js_neq = (\<lambda>a b. a \<noteq> b),
      js_toFixed2 = exact_toFixed2\<rparr>"

section \<open>Properties of the cache store\<close>

lemma past_Some [simp]: "past now (Some n) = (now > n)"
  by (simp add: past_def)

lemma past_None [simp]: "past now None = (now > 0)"
  by (simp add: past_def)

lemma startsWith_prefix: "startsWith (storage_prefix @ key) storage_prefix"
  by (simp add: startsWith_def)

lemma get_after_set:
  "storage_get now' k (storage_set J False now k v ttl ls) =
     Some \<lparr>cached_value = J v, isExpired = past now' (JSON_number (plus_number now ttl)),
           cached_timestamp = now\<rparr>"
  by (simp add: storage_get_def storage_set_def)

lemma get_after_set_other:
  "k' \<noteq> k \<Longrightarrow> storage_get now k (storage_set J False now' k' v ttl ls) = storage_get now k ls"
  by (simp add: storage_get_def storage_set_def)

lemma get_after_clearAll: "storage_get now k (clearAll ls) = None"
  by (simp add: storage_get_def clearAll_def startsWith_prefix)

lemma get_after_remove: "storage_get now k (remove k ls) = None"
  by (simp add: storage_get_def remove_def)

lemma get_after_remove_other:
  "k' \<noteq> k \<Longrightarrow> storage_get now k (remove k' ls) = storage_get now k ls"
  by (simp add: storage_get_def remove_def)

text \<open>
  Claim C6, as stated, fails for a time to live that is positive and not finite: with
  \<open>ttl = Infinity\<close> the expiry is written as \<open>null\<close>, and the \<open>get\<close> that follows at
  once reports the entry as expired.
\<close>

theorem set_then_get_fresh_counterexample:
  "positive PlusInfinity \<and>
   storage_get 1700000000000 ''x''
     (storage_set (\<lambda>v. v) False 1700000000000 ''x'' (42::nat) PlusInfinity Map.empty) =
     Some \<lparr>cached_value = 42, isExpired = True, cached_timestamp = 1700000000000\<rparr> \<and>
   storage_get 1700000000000 ''x''
     (storage_set (\<lambda>v. v) False 1700000000000 ''x'' (42::nat) PlusInfinity Map.empty) \<noteq>
     Some \<lparr>cached_value = 42, isExpired = False, cached_timestamp = 1700000000000\<rparr>"
  by (simp add: get_after_set)

text \<open>
  Claim C6, amended. For a value \<open>v\<close> that JSON represents (it reads back as itself) and
  a finite \<open>ttl > 0\<close>: after \<open>set(k, v, ttl)\<close> has stored its item at clock reading
  \<open>now\<close>, a \<open>get(k)\<close> at a reading \<open>now'\<close> that is not past \<open>now + ttl\<close> returns the
  value \<open>v\<close> with \<open>isExpired = false\<close> (and the time it was stored).
\<close>

theorem set_then_get_fresh:
  assumes "J v = v" and "0 < ttl" and "now' \<le> now + ttl"
  shows "storage_get now' k (storage_set J False now k v (Finite ttl) ls) =
           Some \<lparr>cached_value = v, isExpired = False, cached_timestamp = now\<rparr>"
  using assms by (simp add: get_after_set)

theorem set_then_get_fresh_witness:
  "(\<lambda>v. v) (42::nat) = 42 \<and> (0::int) < 1000 \<and> (500::int) \<le> 0 + 1000 \<and>
   storage_get 500 ''x'' (storage_set (\<lambda>v. v) False 0 ''x'' (42::nat) (Finite 1000) Map.empty) =
     Some \<lparr>cached_value = 42, isExpired = False, cached_timestamp = 0\<rparr>"
  using set_then_get_fresh [of "\<lambda>v. v" "42::nat" 1000 500 0 "''x''" Map.empty] by simp

section \<open>Properties of the queue\<close>

lemma processNext_cases:
  "processNext q = (q', r) \<Longrightarrow>
     (r = None \<and> q' = q \<and> (concurrency q \<le> activeCount q \<or> queue q = [])) \<or>
     (\<exists>t rest. r = Some t \<and> queue q = t # rest \<and> activeCount q < concurrency q \<and>
        q' = q\<lparr>queue := rest, activeCount := activeCount q + 1\<rparr>)"
  by (auto simp: processNext_def split: if_splits list.splits)

lemma processNext_queue:
  "processNext q = (q', r) \<Longrightarrow> (case r of None \<Rightarrow> [] | Some t \<Rightarrow> [t]) @ queue q' = queue q"
  by (auto simp: processNext_def split: if_splits list.splits)

lemma apiQueue_add_fifo:
  assumes "fifo_inv s"
  shows "fifo_inv (snd (apiQueue_add task s))"
proof -
  obtain q r where pn: "processNext ((apiQueue s)\<lparr>queue := queue (apiQueue s) @ [length (tasks s)]\<rparr>) = (q, r)"
    by (cases "processNext ((apiQueue s)\<lparr>queue := queue (apiQueue s) @ [length (tasks s)]\<rparr>)")
  from processNext_queue [OF pn]
  have "(case r of None \<Rightarrow> [] | Some t \<Rightarrow> [t]) @ queue q = queue (apiQueue s) @ [length (tasks s)]"
    by simp
  then have "invoked s @ (case r of None \<Rightarrow> [] | Some t \<Rightarrow> [t]) @ queue q = [0..<Suc (length (tasks s))]"
    using assms by (simp add: fifo_inv_def)
  with pn show ?thesis
    by (simp add: fifo_inv_def apiQueue_add_def add_def started_def Let_def split: option.splits)
qed

lemma apiQueue_add_count:
  "count_inv s \<Longrightarrow> count_inv (snd (apiQueue_add task s))"
  by (auto simp: count_inv_def apiQueue_add_def add_def started_def Let_def
      split: prod.splits option.splits dest!: processNext_cases)

lemma apiQueue_add_cap:
  "cap_inv c s \<Longrightarrow> cap_inv c (snd (apiQueue_add task s))"
  by (auto simp: cap_inv_def apiQueue_add_def add_def started_def Let_def
      split: prod.splits option.splits dest!: processNext_cases)

lemma fetchWithCache_queue:
  "snd (fetchWithCache key f force now s) = s \<or>
   (\<exists>fr. snd (fetchWithCache key f force now s) =
      (snd (apiQueue_add f s))\<lparr>awaiting := (awaiting (snd (apiQueue_add f s)))(length (tasks s) \<mapsto> fr)\<rparr>)"
  by (auto simp: fetchWithCache_def Let_def apiQueue_add_def split: option.splits prod.splits)

lemma step_fifo: "step J s e = Some s' \<Longrightarrow> fifo_inv s \<Longrightarrow> fifo_inv s'"
proof (cases e)
  case (Call key f force now)
  assume a: "step J s e = Some s'" "fifo_inv s"
  from fetchWithCache_queue [of key f force now s] a Call apiQueue_add_fifo [OF a(2), of f]
  show ?thesis by (auto simp: fifo_inv_def)
next
  case (Add task)
  assume a: "step J s e = Some s'" "fifo_inv s"
  with Add apiQueue_add_fifo [of s task] show ?thesis by auto
next
  case (Finally t)
  assume a: "step J s e = Some s'" "fifo_inv s"
  obtain q r where pn: "processNext ((apiQueue s)\<lparr>activeCount := activeCount (apiQueue s) - 1\<rparr>) = (q, r)"
    by (cases "processNext ((apiQueue s)\<lparr>activeCount := activeCount (apiQueue s) - 1\<rparr>)")
  from processNext_queue [OF pn]
  have "invoked s @ (case r of None \<Rightarrow> [] | Some t \<Rightarrow> [t]) @ queue q = [0..<length (tasks s)]"
    using a(2) by (simp add: fifo_inv_def)
  with a Finally pn show ?thesis
    by (auto simp: fifo_inv_def on_finally_def started_def split: if_splits option.splits)
qed (auto simp: fifo_inv_def Let_def split: if_splits option.splits prod.splits outcome.splits)


lemma length_remove1_Suc: "t \<in> set xs \<Longrightarrow> Suc (length (remove1 t xs)) = length xs"
  by (induction xs) auto

lemma length_remove1_int:
  "t \<in> set xs \<Longrightarrow> int (length (remove1 t xs)) = int (length xs) - 1"
  using length_remove1_Suc [of t xs] by linarith

lemma step_count: "step J s e = Some s' \<Longrightarrow> count_inv s \<Longrightarrow> count_inv s'"
proof (cases e)
  case (Call key f force now)
  assume a: "step J s e = Some s'" "count_inv s"
  from fetchWithCache_queue [of key f force now s] a Call apiQueue_add_count [OF a(2), of f]
  show ?thesis by (auto simp: count_inv_def)
next
  case (Add task)
  assume a: "step J s e = Some s'" "count_inv s"
  with Add apiQueue_add_count [of s task] show ?thesis by auto
next
  case (Settle t out)
  assume a: "step J s e = Some s'" "count_inv s"
  with Settle show ?thesis
    by (auto simp: count_inv_def length_remove1_int split: if_splits)
next
  case (Finally t)
  assume a: "step J s e = Some s'" "count_inv s"
  with Finally show ?thesis
    by (auto simp: count_inv_def on_finally_def started_def length_remove1_int
        split: prod.splits option.splits if_splits dest!: processNext_cases)
qed (auto simp: count_inv_def Let_def split: if_splits option.splits prod.splits)

lemma step_cap: "step J s e = Some s' \<Longrightarrow> cap_inv c s \<Longrightarrow> cap_inv c s'"
proof (cases e)
  case (Call key f force now)
  assume a: "step J s e = Some s'" "cap_inv c s"
  from fetchWithCache_queue [of key f force now s] a Call apiQueue_add_cap [OF a(2), of f]
  show ?thesis by (auto simp: cap_inv_def)
next
  case (Add task)
  assume a: "step J s e = Some s'" "cap_inv c s"
  with Add apiQueue_add_cap [of c s task] show ?thesis by auto
next
  case (Finally t)
  assume a: "step J s e = Some s'" "cap_inv c s"
  with Finally show ?thesis
    by (auto simp: cap_inv_def on_finally_def started_def
        split: prod.splits option.splits if_splits dest!: processNext_cases)
qed (auto simp: cap_inv_def Let_def split: if_splits option.splits prod.splits)

lemma run_fifo: "run J es s = Some s' \<Longrightarrow> fifo_inv s \<Longrightarrow> fifo_inv s'"
  by (induction es arbitrary: s) (auto split: option.splits dest: step_fifo)

lemma run_count: "run J es s = Some s' \<Longrightarrow> count_inv s \<Longrightarrow> count_inv s'"
  by (induction es arbitrary: s) (auto split: option.splits dest: step_count)

lemma run_cap: "run J es s = Some s' \<Longrightarrow> cap_inv c s \<Longrightarrow> cap_inv c s'"
  by (induction es arbitrary: s) (auto split: option.splits dest: step_cap)

lemma init_invs: "fifo_inv (init_sys c ls)" "count_inv (init_sys c ls)" "cap_inv c (init_sys c ls)"
  by (simp_all add: fifo_inv_def count_inv_def cap_inv_def init_sys_def new_RequestQueue_def)

text \<open>
  Claim C3. In every state reached from a fresh queue of capacity \<open>c \<ge> 0\<close> by any sequence
  of events (calls of \<open>add\<close>, directly or through \<open>fetchWithCache\<close>, task completions,
  \<open>.finally\<close> callbacks, continuations), \<open>0 \<le> activeCount \<le> capacity\<close> holds, and no
  more than \<open>c\<close> operations are running.
\<close>

theorem activeCount_bounded:
  assumes "0 \<le> c" and "run J es (init_sys c ls) = Some s"
  shows "0 \<le> activeCount (apiQueue s) \<and> activeCount (apiQueue s) \<le> concurrency (apiQueue s) \<and>
         concurrency (apiQueue s) = c \<and> int (length (running s)) \<le> c"
proof -
  from run_count [OF assms(2) init_invs(2)]
  have n: "activeCount (apiQueue s) = int (length (running s)) + int (length (draining s))"
    by (simp add: count_inv_def)
  from run_cap [OF assms(2) init_invs(3)] assms(1)
  have c: "concurrency (apiQueue s) = c" "activeCount (apiQueue s) \<le> c"
    by (simp_all add: cap_inv_def)
  from n c show ?thesis by simp
qed


theorem activeCount_bounded_witness:
  "(0::int) \<le> 2 \<and>
   (\<exists>s. run (\<lambda>v. v) [Add (OtherLogic ''a''), Add (OtherLogic ''b''), Add (OtherLogic ''c''),
              Settle 0 (Rejected (Error ''down'')), Finally 0]
            (init_sys 2 (Map.empty :: nat localStorage)) = Some s \<and>
        activeCount (apiQueue s) = 2 \<and> concurrency (apiQueue s) = 2 \<and>
        running s = [1, 2] \<and> queue (apiQueue s) = [] \<and>
        0 \<le> activeCount (apiQueue s) \<and> activeCount (apiQueue s) \<le> concurrency (apiQueue s) \<and>
        int (length (running s)) \<le> 2)"
proof -
  obtain s where r: "run (\<lambda>v. v) [Add (OtherLogic ''a''), Add (OtherLogic ''b''), Add (OtherLogic ''c''),
              Settle 0 (Rejected (Error ''down'')), Finally 0]
            (init_sys 2 (Map.empty :: nat localStorage)) = Some s"
    and v: "activeCount (apiQueue s) = 2" "running s = [1, 2]" "queue (apiQueue s) = []"
    by (simp add: init_sys_def new_RequestQueue_def apiQueue_add_def add_def on_finally_def
        processNext_def started_def)
  from activeCount_bounded [OF _ r] v r show ?thesis by simp
qed

section \<open>Admission order\<close>

lemma apiQueue_add_bound: "bound_inv s \<Longrightarrow> bound_inv (snd (apiQueue_add task s))"
  by (auto simp: bound_inv_def apiQueue_add_def add_def started_def Let_def
      split: prod.splits option.splits dest!: processNext_cases)

lemma step_bound: "step J s e = Some s' \<Longrightarrow> bound_inv s \<Longrightarrow> bound_inv s'"
proof (cases e)
  case (Call key f force now)
  assume a: "step J s e = Some s'" "bound_inv s"
  from fetchWithCache_queue [of key f force now s] a Call apiQueue_add_bound [OF a(2), of f]
  show ?thesis by (auto simp: bound_inv_def)
next
  case (Add task)
  assume a: "step J s e = Some s'" "bound_inv s"
  with Add apiQueue_add_bound [of s task] show ?thesis by auto
next
  case (Settle t out)
  assume a: "step J s e = Some s'" "bound_inv s"
  with Settle length_remove1_Suc [of t "running s"] show ?thesis
    by (auto simp: bound_inv_def split: if_splits)
next
  case (Finally t)
  assume a: "step J s e = Some s'" "bound_inv s"
  with Finally length_remove1_Suc [of t "draining s"] show ?thesis
    by (auto simp: bound_inv_def on_finally_def started_def
        split: prod.splits option.splits if_splits dest!: processNext_cases)
qed (auto simp: bound_inv_def Let_def split: if_splits option.splits prod.splits)

lemma run_bound: "run J es s = Some s' \<Longrightarrow> bound_inv s \<Longrightarrow> bound_inv s'"
  by (induction es arbitrary: s) (auto split: option.splits dest: step_bound)

lemma apiQueue_add_busy: "busy_inv s \<Longrightarrow> busy_inv (snd (apiQueue_add task s))"
  by (auto simp: busy_inv_def apiQueue_add_def add_def started_def Let_def
      split: prod.splits option.splits dest!: processNext_cases)

lemma step_busy: "step J s e = Some s' \<Longrightarrow> busy_inv s \<Longrightarrow> busy_inv s'"
proof (cases e)
  case (Call key f force now)
  assume a: "step J s e = Some s'" "busy_inv s"
  from fetchWithCache_queue [of key f force now s] a Call apiQueue_add_busy [OF a(2), of f]
  show ?thesis by (auto simp: busy_inv_def)
next
  case (Add task)
  assume a: "step J s e = Some s'" "busy_inv s"
  with Add apiQueue_add_busy [of s task] show ?thesis by auto
next
  case (Finally t)
  assume a: "step J s e = Some s'" "busy_inv s"
  with Finally show ?thesis
    by (auto simp: busy_inv_def on_finally_def started_def
        split: prod.splits option.splits if_splits dest!: processNext_cases)
qed (auto simp: busy_inv_def Let_def split: if_splits option.splits prod.splits)

lemma run_busy: "run J es s = Some s' \<Longrightarrow> busy_inv s \<Longrightarrow> busy_inv s'"
  by (induction es arbitrary: s) (auto split: option.splits dest: step_busy)

lemma init_invs2: "bound_inv (init_sys c ls)" "busy_inv (init_sys c ls)"
  by (simp_all add: bound_inv_def busy_inv_def init_sys_def new_RequestQueue_def)

text \<open>
  Claim C4. Admission is first-in first-out in the order of the \<open>add\<close> calls: in every
  reachable state the tasks invoked so far, in invocation order, followed by the pending
  tasks, in queue order, are exactly the tasks \<open>0, 1, ...\<close> in \<open>add\<close> order. So the
  invoked tasks are an initial segment of the \<open>add\<close> order, and every pending task was
  added after every invoked one. With no contention (no more tasks than capacity) every
  task has been invoked, in \<open>add\<close> order.
\<close>

theorem fifo_admission:
  assumes "run J es (init_sys c ls) = Some s"
  shows "invoked s @ queue (apiQueue s) = [0..<length (tasks s)] \<and>
         (int (length (tasks s)) \<le> c \<longrightarrow> invoked s = [0..<length (tasks s)])"
proof -
  have f: "invoked s @ queue (apiQueue s) = [0..<length (tasks s)]"
    using run_fifo [OF assms init_invs(1)] by (simp add: fifo_inv_def)
  have n: "activeCount (apiQueue s) = int (length (running s)) + int (length (draining s))"
    using run_count [OF assms init_invs(2)] by (simp add: count_inv_def)
  have c: "concurrency (apiQueue s) = c"
    using run_cap [OF assms init_invs(3)] by (simp add: cap_inv_def)
  have b: "length (running s) + length (draining s) \<le> length (invoked s)"
    using run_bound [OF assms init_invs2(1)] by (simp add: bound_inv_def)
  have w: "queue (apiQueue s) = [] \<or> c \<le> activeCount (apiQueue s)"
    using run_busy [OF assms init_invs2(2)] c by (simp add: busy_inv_def)
  have "queue (apiQueue s) = []" if le: "int (length (tasks s)) \<le> c"
  proof (rule ccontr)
    assume ne: "queue (apiQueue s) \<noteq> []"
    from f have "length (invoked s) + length (queue (apiQueue s)) = length (tasks s)"
      by (metis length_append length_upt minus_nat.diff_0)
    moreover from ne have "0 < length (queue (apiQueue s))" by simp
    ultimately have "int (length (invoked s)) < c" using le by linarith
    moreover from w ne n b have "c \<le> int (length (invoked s))" by linarith
    ultimately show False by simp
  qed
  with f show ?thesis by auto
qed

theorem fifo_admission_witness:
  "(\<exists>s. run (\<lambda>v. v) [Add (OtherLogic ''a''), Add (OtherLogic ''b''), Add (OtherLogic ''c''),
              Settle 1 (Fulfilled (7::nat)), Finally 1]
            (init_sys 2 Map.empty) = Some s \<and>
        invoked s = [0, 1, 2] \<and> queue (apiQueue s) = [] \<and>
        invoked s @ queue (apiQueue s) = [0..<length (tasks s)]) \<and>
   (\<exists>s. run (\<lambda>v. v) [Add (OtherLogic ''a''), Add (OtherLogic ''b''), Add (OtherLogic ''c'')]
            (init_sys 3 (Map.empty :: nat localStorage)) = Some s \<and>
        int (length (tasks s)) \<le> 3 \<and> invoked s = [0..<length (tasks s)])"
proof -
  obtain s where r: "run (\<lambda>v. v) [Add (OtherLogic ''a''), Add (OtherLogic ''b''), Add (OtherLogic ''c''),
              Settle 1 (Fulfilled (7::nat)), Finally 1]
            (init_sys 2 Map.empty) = Some s"
    and v: "invoked s = [0, 1, 2]" "queue (apiQueue s) = []"
    by (simp add: init_sys_def new_RequestQueue_def apiQueue_add_def add_def on_finally_def
        processNext_def started_def)
  obtain s' where r': "run (\<lambda>v. v) [Add (OtherLogic ''a''), Add (OtherLogic ''b''), Add (OtherLogic ''c'')]
            (init_sys 3 (Map.empty :: nat localStorage)) = Some s'"
    and v': "length (tasks s') = 3"
    by (simp add: init_sys_def new_RequestQueue_def apiQueue_add_def add_def on_finally_def
        processNext_def started_def)
  from fifo_admission [OF r] fifo_admission [OF r'] v v' r r' show ?thesis by auto
qed

lemma settle_handle:
  "(case out of Fulfilled v \<Rightarrow> m(t \<mapsto> Fulfilled v) | Rejected e \<Rightarrow> m(t \<mapsto> Rejected e)) =
     m(t \<mapsto> out)"
  by (cases out) simp_all

lemma step_Settle:
  "step J s (Settle t out) =
     (if t \<in> set (running s)
      then Some (s\<lparr>running := remove1 t (running s), draining := draining s @ [t],
                   handles := (handles s)(t \<mapsto> out)\<rparr>)
      else None)"
  by (simp add: settle_handle)

section \<open>Handles settle once\<close>

lemma fifo_head_fresh:
  assumes "fifo_inv s" and "queue (apiQueue s) @ ts = t # rest" and "set ts \<inter> set (invoked s) = {}"
  shows "t \<notin> set (invoked s)"
proof (cases "queue (apiQueue s)")
  case Nil
  with assms show ?thesis by auto
next
  case (Cons a as)
  from assms(1) have "distinct (invoked s @ queue (apiQueue s))"
    by (simp add: fifo_inv_def)
  with Cons assms(2) show ?thesis by auto
qed

lemma fifo_invoked_bound: "fifo_inv s \<Longrightarrow> t \<in> set (invoked s) \<Longrightarrow> t < length (tasks s)"
proof -
  assume a: "fifo_inv s" "t \<in> set (invoked s)"
  then have "t \<in> set [0..<length (tasks s)]"
    unfolding fifo_inv_def by (metis Un_iff set_append)
  then show ?thesis by simp
qed

lemma started_settle:
  assumes "settle_inv s" and "\<And>t. r = Some t \<Longrightarrow> t \<notin> set (invoked s)"
  shows "settle_inv (started r s)"
  using assms by (cases r) (auto simp: settle_inv_def started_def)

lemma settle_inv_cong:
  "settle_inv s \<Longrightarrow> running s' = running s \<Longrightarrow> invoked s' = invoked s \<Longrightarrow>
   handles s' = handles s \<Longrightarrow> settle_inv s'"
  by (simp add: settle_inv_def)

lemma apiQueue_add_settle:
  assumes "fifo_inv s" and "settle_inv s"
  shows "settle_inv (snd (apiQueue_add task s))"
proof -
  obtain q r where pn: "processNext ((apiQueue s)\<lparr>queue := queue (apiQueue s) @ [length (tasks s)]\<rparr>) = (q, r)"
    by (cases "processNext ((apiQueue s)\<lparr>queue := queue (apiQueue s) @ [length (tasks s)]\<rparr>)")
  let ?s = "s\<lparr>apiQueue := q, tasks := tasks s @ [task]\<rparr>"
  have i: "settle_inv ?s" using assms(2) by (rule settle_inv_cong) simp_all
  have "t \<notin> set (invoked ?s)" if "r = Some t" for t
  proof -
    from processNext_cases [OF pn] that
    obtain rest where "queue (apiQueue s) @ [length (tasks s)] = t # rest" by auto
    moreover have "set [length (tasks s)] \<inter> set (invoked s) = {}"
      using fifo_invoked_bound [OF assms(1)] by auto
    ultimately show ?thesis using fifo_head_fresh [OF assms(1)] by simp
  qed
  from started_settle [OF i this] pn show ?thesis
    by (simp add: apiQueue_add_def add_def)
qed

lemma step_settle: "step J s e = Some s' \<Longrightarrow> fifo_inv s \<Longrightarrow> settle_inv s \<Longrightarrow> settle_inv s'"
proof (cases e)
  case (Call key f force now)
  assume a: "step J s e = Some s'" "fifo_inv s" "settle_inv s"
  from fetchWithCache_queue [of key f force now s] a(1) Call
  consider "s' = s"
    | fr where "s' = (snd (apiQueue_add f s))\<lparr>awaiting :=
                 (awaiting (snd (apiQueue_add f s)))(length (tasks s) \<mapsto> fr)\<rparr>"
    by auto
  then show ?thesis
  proof cases
    case 1
    with a(3) show ?thesis by simp
  next
    case 2
    show ?thesis
      by (rule settle_inv_cong [OF apiQueue_add_settle [OF a(2,3), of f]]) (simp_all add: 2)
  qed
next
  case (Add task)
  assume a: "step J s e = Some s'" "fifo_inv s" "settle_inv s"
  with Add apiQueue_add_settle [of s task] show ?thesis by auto
next
  case (Settle t out)
  assume a: "step J s e = Some s'" "fifo_inv s" "settle_inv s"
  with Settle show ?thesis
    by (auto simp: settle_inv_def step_Settle simp del: step.simps split: if_splits
        dest: notin_set_remove1)
next
  case (Finally t)
  assume a: "step J s e = Some s'" "fifo_inv s" "settle_inv s"
  obtain q r where pn: "processNext ((apiQueue s)\<lparr>activeCount := activeCount (apiQueue s) - 1\<rparr>) = (q, r)"
    by (cases "processNext ((apiQueue s)\<lparr>activeCount := activeCount (apiQueue s) - 1\<rparr>)")
  let ?s = "s\<lparr>apiQueue := q, draining := remove1 t (draining s)\<rparr>"
  have i: "settle_inv ?s" using a(3) by (rule settle_inv_cong) simp_all
  have "u \<notin> set (invoked ?s)" if "r = Some u" for u
  proof -
    from processNext_cases [OF pn] that
    obtain rest where "queue (apiQueue s) @ [] = u # rest" by auto
    then show ?thesis using fifo_head_fresh [OF a(2), of "[]"] by simp
  qed
  from started_settle [OF i this] pn a(1) Finally show ?thesis
    by (auto simp: on_finally_def split: if_splits)
next
  case (Resume t now throws)
  assume a: "step J s e = Some s'" "fifo_inv s" "settle_inv s"
  with Resume show ?thesis
    by (auto simp: settle_inv_def split: option.splits prod.splits)
next
  case ClearAll
  assume a: "step J s e = Some s'" "fifo_inv s" "settle_inv s"
  with ClearAll show ?thesis by (auto simp: settle_inv_def)
qed

section \<open>Failure isolation and release of capacity\<close>

lemma run_settle:
  "run J es s = Some s' \<Longrightarrow> fifo_inv s \<Longrightarrow> settle_inv s \<Longrightarrow> settle_inv s'"
  by (induction es arbitrary: s) (auto split: option.splits dest: step_settle step_fifo)

lemma apiQueue_add_handles: "handles (snd (apiQueue_add task s)) = handles s"
  by (simp add: apiQueue_add_def started_def Let_def split: prod.splits option.splits)

lemma fetchWithCache_handles: "handles (snd (fetchWithCache key f force now s)) = handles s"
  using fetchWithCache_queue [of key f force now s] by (auto simp: apiQueue_add_handles)

lemma step_handles:
  "step J s e = Some s' \<Longrightarrow>
     handles s' = (case e of Settle t out \<Rightarrow> (handles s)(t \<mapsto> out) | _ \<Rightarrow> handles s)"
  by (cases e)
     (auto simp: step_Settle apiQueue_add_handles fetchWithCache_handles on_finally_def
        started_def simp del: step.simps(3) split: if_splits option.splits prod.splits)

lemma run_handles:
  "run J es s0 = Some s \<Longrightarrow> fifo_inv s0 \<Longrightarrow> settle_inv s0 \<Longrightarrow>
     handles s t = (case handles s0 t of Some out \<Rightarrow> Some out | None \<Rightarrow> settled_as es t)"
proof (induction es arbitrary: s0)
  case Nil
  then show ?case by (simp split: option.splits)
next
  case (Cons e es)
  from Cons.prems(1) obtain s1 where s1: "step J s0 e = Some s1" and r: "run J es s1 = Some s"
    by (auto split: option.splits)
  note inv1 = step_fifo [OF s1 Cons.prems(2)] step_settle [OF s1 Cons.prems(2,3)]
  note ih = Cons.IH [OF r inv1]
  show ?case
  proof (cases e)
    case (Settle u out)
    with s1 have u: "u \<in> set (running s0)" by (auto split: if_splits)
    with Cons.prems(3) have "handles s0 u = None" by (simp add: settle_inv_def)
    with ih step_handles [OF s1] Settle show ?thesis by (auto split: option.splits)
  qed (use ih step_handles [OF s1] in \<open>auto split: option.splits\<close>)
qed

lemma apiQueue_add_released:
  "int (length (invoked (snd (apiQueue_add task s)))) - activeCount (apiQueue (snd (apiQueue_add task s)))
     = int (length (invoked s)) - activeCount (apiQueue s)"
  by (auto simp: apiQueue_add_def add_def started_def Let_def
      split: prod.splits option.splits dest!: processNext_cases)

lemma step_released:
  "step J s e = Some s' \<Longrightarrow>
     int (length (invoked s')) - activeCount (apiQueue s') =
     int (length (invoked s)) - activeCount (apiQueue s) + int (finally_count [e])"
proof (cases e)
  case (Call key f force now)
  assume "step J s e = Some s'"
  with fetchWithCache_queue [of key f force now s] Call apiQueue_add_released [of f s]
  show ?thesis by auto
next
  case (Add task)
  assume "step J s e = Some s'"
  with Add apiQueue_add_released [of task s] show ?thesis by auto
next
  case (Finally t)
  assume "step J s e = Some s'"
  with Finally show ?thesis
    by (auto simp: on_finally_def started_def
        split: prod.splits option.splits if_splits dest!: processNext_cases)
qed (auto simp: Let_def split: if_splits option.splits prod.splits)

lemma finally_count_Cons: "finally_count (e # es) = finally_count [e] + finally_count es"
  by (cases e) simp_all

lemma run_released:
  "run J es s = Some s' \<Longrightarrow>
     int (length (invoked s')) - activeCount (apiQueue s') =
     int (length (invoked s)) - activeCount (apiQueue s) + int (finally_count es)"
proof (induction es arbitrary: s)
  case Nil
  then show ?case by simp
next
  case (Cons e es)
  from Cons.prems obtain s1 where s1: "step J s e = Some s1" and r: "run J es s1 = Some s'"
    by (auto split: option.splits)
  from Cons.IH [OF r] step_released [OF s1] finally_count_Cons [of e es]
  show ?case by simp
qed

lemma settle_then_finally:
  assumes "t \<in> set (running s)"
  shows "\<exists>s1 s2. step J s (Settle t out) = Some s1 \<and>
           (\<forall>u. handles s1 u = (if u = t then Some out else handles s u)) \<and>
           step J s1 (Finally t) = Some s2 \<and>
           activeCount (apiQueue s2) =
             activeCount (apiQueue s) - 1 + (int (length (invoked s2)) - int (length (invoked s)))"
proof -
  let ?s1 = "s\<lparr>running := remove1 t (running s), draining := draining s @ [t],
                 handles := (handles s)(t \<mapsto> out)\<rparr>"
  have 1: "step J s (Settle t out) = Some ?s1" using assms by (simp add: step_Settle del: step.simps)
  have "t \<in> set (draining ?s1)" by simp
  then obtain s2 where 2: "step J ?s1 (Finally t) = Some s2"
    by (cases "on_finally (apiQueue ?s1)") simp
  from step_released [OF 2]
  have "activeCount (apiQueue s2) =
          activeCount (apiQueue s) - 1 + (int (length (invoked s2)) - int (length (invoked s)))"
    by simp
  with 1 2 show ?thesis by auto
qed

text \<open>
  Claim C5. In every reachable state the handle of each task is settled exactly as its
  own operation settled (a rejected operation rejects its own handle with its reason and
  no other handle); \<open>activeCount\<close> is the number of invoked tasks minus the number of
  \<open>.finally\<close> callbacks run, whatever the outcomes were; and for a running task and any
  outcome, fulfilled or rejected, settling changes that task's handle only, the
  \<open>.finally\<close> callback can run, and it gives back one unit of capacity (which
  \<open>processNext\<close> may hand to the next pending task at once).
\<close>

theorem failure_isolated:
  assumes "run J es (init_sys c ls) = Some s"
  shows "(\<forall>t. handles s t = settled_as es t) \<and>
         activeCount (apiQueue s) = int (length (invoked s)) - int (finally_count es) \<and>
         (\<forall>t out. t \<in> set (running s) \<longrightarrow>
            (\<exists>s1 s2. step J s (Settle t out) = Some s1 \<and>
               (\<forall>u. handles s1 u = (if u = t then Some out else handles s u)) \<and>
               step J s1 (Finally t) = Some s2 \<and>
               activeCount (apiQueue s2) =
                 activeCount (apiQueue s) - 1 +
                 (int (length (invoked s2)) - int (length (invoked s)))))"
proof -
  have i: "settle_inv (init_sys c ls)"
    by (simp add: settle_inv_def init_sys_def)
  have "handles s t = settled_as es t" for t
    using run_handles [OF assms init_invs(1) i, of t] by (simp add: init_sys_def)
  moreover have "activeCount (apiQueue s) = int (length (invoked s)) - int (finally_count es)"
    using run_released [OF assms] by (simp add: init_sys_def new_RequestQueue_def)
  ultimately show ?thesis using settle_then_finally by blast
qed

theorem failure_isolated_witness:
  "\<exists>s. run (\<lambda>v. v) [Add (OtherLogic ''a''), Add (OtherLogic ''b''), Add (OtherLogic ''c''),
             Settle 0 (Rejected (Error ''down'')), Settle 1 (Fulfilled (7::nat)), Finally 0]
           (init_sys 2 Map.empty) = Some s \<and>
       handles s 0 = Some (Rejected (Error ''down'')) \<and>
       handles s 1 = Some (Fulfilled 7) \<and>
       handles s 2 = None \<and>
       invoked s = [0, 1, 2] \<and>
       activeCount (apiQueue s) = 3 - 1 \<and>
       2 \<in> set (running s) \<and>
       (\<exists>s1 s2. step (\<lambda>v. v) s (Settle 2 (Rejected (Error ''late''))) = Some s1 \<and>
          handles s1 2 = Some (Rejected (Error ''late'')) \<and>
          handles s1 1 = Some (Fulfilled 7) \<and>
          step (\<lambda>v. v) s1 (Finally 2) = Some s2 \<and>
          activeCount (apiQueue s2) =
            activeCount (apiQueue s) - 1 + (int (length (invoked s2)) - int (length (invoked s))))"
proof -
  obtain s where r: "run (\<lambda>v. v) [Add (OtherLogic ''a''), Add (OtherLogic ''b''), Add (OtherLogic ''c''),
             Settle 0 (Rejected (Error ''down'')), Settle 1 (Fulfilled (7::nat)), Finally 0]
           (init_sys 2 Map.empty) = Some s"
    and v: "invoked s = [0, 1, 2]" "running s = [2]"
    by (simp add: init_sys_def new_RequestQueue_def apiQueue_add_def add_def on_finally_def
        processNext_def started_def)
  note th = failure_isolated [OF r]
  from th have h: "handles s 0 = Some (Rejected (Error ''down''))"
    "handles s 1 = Some (Fulfilled 7)" "handles s 2 = None"
    by simp_all
  from th v have a: "activeCount (apiQueue s) = 3 - 1" by simp
  from v have "2 \<in> set (running s)" by simp
  with th obtain s1 s2 where
    "step (\<lambda>v. v) s (Settle 2 (Rejected (Error ''late''))) = Some s1"
    "\<forall>u. handles s1 u = (if u = 2 then Some (Rejected (Error ''late'')) else handles s u)"
    "step (\<lambda>v. v) s1 (Finally 2) = Some s2"
    "activeCount (apiQueue s2) =
       activeCount (apiQueue s) - 1 + (int (length (invoked s2)) - int (length (invoked s)))"
    by blast
  with r h v a show ?thesis by auto
qed

section \<open>Stale fallback\<close>

lemma apiQueue_add_fst: "fst (apiQueue_add task s) = length (tasks s)"
  by (simp add: apiQueue_add_def Let_def split: prod.splits)

lemma apiQueue_add_tasks: "tasks (snd (apiQueue_add task s)) = tasks s @ [task]"
  by (simp add: apiQueue_add_def started_def Let_def split: prod.splits option.splits)

lemma apiQueue_add_storage: "storage (snd (apiQueue_add task s)) = storage s"
  by (simp add: apiQueue_add_def started_def Let_def split: prod.splits option.splits)

lemma apiQueue_add_awaiting: "awaiting (snd (apiQueue_add task s)) = awaiting s"
  by (simp add: apiQueue_add_def started_def Let_def split: prod.splits option.splits)

lemma apiQueue_add_results: "results (snd (apiQueue_add task s)) = results s"
  by (simp add: apiQueue_add_def started_def Let_def split: prod.splits option.splits)

text \<open>The two ways \<open>fetchWithCache\<close> can go, in full.\<close>

lemma fetchWithCache_cases:
  "(\<not> forceRefresh \<and> fresh_entry now key (storage s) \<and>
      (\<exists>c. storage_get now key (storage s) = Some c \<and>
         fetchWithCache key fetcher forceRefresh now s = (Returned (cached_value c), s))) \<or>
   ((forceRefresh \<or> \<not> fresh_entry now key (storage s)) \<and>
      fetchWithCache key fetcher forceRefresh now s =
        (Awaiting (length (tasks s)),
         (snd (apiQueue_add fetcher s))\<lparr>awaiting := (awaiting s)(length (tasks s) \<mapsto>
            \<lparr>frame_key = key, frame_cached = storage_get now key (storage s)\<rparr>)\<rparr>))"
proof -
  obtain t s' where a: "apiQueue_add fetcher s = (t, s')" by (cases "apiQueue_add fetcher s")
  with apiQueue_add_fst [of fetcher s] apiQueue_add_awaiting [of fetcher s]
  have "t = length (tasks s)" "awaiting s' = awaiting s" by simp_all
  with a show ?thesis
    by (auto simp: fetchWithCache_def fresh_entry_def split: option.splits)
qed

lemma step_awaiting:
  assumes "step J s e = Some s'" and "t < length (tasks s)"
  shows "(awaiting s' t = None \<or> awaiting s' t = awaiting s t) \<and> length (tasks s) \<le> length (tasks s')"
proof (cases e)
  case (Call key f force now)
  with assms fetchWithCache_cases [of force now key s f] show ?thesis
    by (auto simp: apiQueue_add_tasks)
next
  case (Add task)
  with assms show ?thesis by (auto simp: apiQueue_add_tasks apiQueue_add_awaiting)
next
  case (Settle u out)
  with assms show ?thesis by (auto split: if_splits)
next
  case (Finally u)
  with assms show ?thesis
    by (auto simp: started_def split: if_splits prod.splits option.splits)
next
  case (Resume u now throws)
  with assms show ?thesis by (auto split: option.splits prod.splits)
next
  case ClearAll
  with assms show ?thesis by auto
qed

lemma run_awaiting:
  "run J es s = Some s' \<Longrightarrow> t < length (tasks s) \<Longrightarrow>
     awaiting s' t = None \<or> awaiting s' t = awaiting s t"
proof (induction es arbitrary: s)
  case Nil
  then show ?case by simp
next
  case (Cons e es)
  from Cons.prems(1) obtain s1 where s1: "step J s e = Some s1" and r: "run J es s1 = Some s'"
    by (auto split: option.splits)
  from step_awaiting [OF s1 Cons.prems(2)]
  have 1: "awaiting s1 t = None \<or> awaiting s1 t = awaiting s t" and 2: "t < length (tasks s1)"
    using Cons.prems(2) by auto
  from Cons.IH [OF r 2] 1 show ?case by auto
qed

lemma suspended_call_resumes:
  assumes call: "fetchWithCache key fetcher forceRefresh now s = (Awaiting t, s1)"
    and run: "run J es s1 = Some s2"
    and resume: "step J s2 (Resume t now' throws) = Some s3"
  shows "\<exists>out. handles s2 t = Some out \<and>
           results s3 t =
             Some (fst (fetchWithCache_resume J
                \<lparr>frame_key = key, frame_cached = storage_get now key (storage s)\<rparr>
                out now' throws (storage s2)))"
proof -
  from call fetchWithCache_cases [of forceRefresh now key s fetcher]
  have t: "t = length (tasks s)"
    and s1: "s1 = (snd (apiQueue_add fetcher s))\<lparr>awaiting := (awaiting s)(length (tasks s) \<mapsto>
            \<lparr>frame_key = key, frame_cached = storage_get now key (storage s)\<rparr>)\<rparr>"
    by auto
  from s1 t have "t < length (tasks s1)"
    and a1: "awaiting s1 t = Some \<lparr>frame_key = key, frame_cached = storage_get now key (storage s)\<rparr>"
    by (simp_all add: apiQueue_add_tasks)
  from run_awaiting [OF run this(1)] a1
  have "awaiting s2 t = None \<or>
        awaiting s2 t = Some \<lparr>frame_key = key, frame_cached = storage_get now key (storage s)\<rparr>"
    by simp
  with resume show ?thesis
    by (auto split: option.splits prod.splits)
qed

text \<open>
  Claim C1. Take a call of \<open>fetchWithCache\<close> that was suspended on the queue (task \<open>t\<close>),
  any events after it, and a handle that was rejected with \<open>e\<close>. When the call
  continues, it settles with the value found by the lookup made at call time, if that
  lookup found an entry (fresh or expired), and it is rejected with \<open>e\<close> if the lookup
  found none: it is rejected exactly when no entry existed at lookup time.
\<close>

theorem stale_fallback:
  assumes call: "fetchWithCache key fetcher forceRefresh now s = (Awaiting t, s1)"
    and run: "run J es s1 = Some s2"
    and rejected: "handles s2 t = Some (Rejected e)"
    and resume: "step J s2 (Resume t now' throws) = Some s3"
  shows "results s3 t =
           Some (case storage_get now key (storage s) of
                   None \<Rightarrow> Rejected e
                 | Some c \<Rightarrow> Fulfilled (cached_value c)) \<and>
         ((\<exists>r. results s3 t = Some (Rejected r)) = (storage_get now key (storage s) = None))"
  using suspended_call_resumes [OF call run resume] rejected
  by (auto simp: fetchWithCache_resume_def split: option.splits)

lemma resume_enabled:
  "awaiting s t = Some fr \<Longrightarrow> handles s t = Some out \<Longrightarrow>
     \<exists>s'. step J s (Resume t now throws) = Some s'"
  by (cases "fetchWithCache_resume J fr out now throws (storage s)") simp

lemmas eval_defs = init_sys_def new_RequestQueue_def apiQueue_add_def add_def on_finally_def
  processNext_def started_def fetchWithCache_def fetchWithCache_resume_def
  storage_get_def storage_set_def storage_prefix_def

theorem stale_fallback_witness:
  "(\<exists>s1 s2 s3.
      fetchWithCache ''x'' (OtherLogic ''x'') False 1500
        (init_sys 3 (storage_set (\<lambda>v. v) False 0 ''x'' (42::nat) (Finite 1000) Map.empty)) = (Awaiting 0, s1) \<and>
      run (\<lambda>v. v) [Settle 0 (Rejected (Error ''down''))] s1 = Some s2 \<and>
      handles s2 0 = Some (Rejected (Error ''down'')) \<and>
      step (\<lambda>v. v) s2 (Resume 0 1501 False) = Some s3 \<and>
      results s3 0 = Some (Fulfilled 42)) \<and>
   (\<exists>s1 s2 s3.
      fetchWithCache ''x'' (OtherLogic ''x'') False 1500
        (init_sys 3 (Map.empty :: nat localStorage)) = (Awaiting 0, s1) \<and>
      run (\<lambda>v. v) [Settle 0 (Rejected (Error ''down''))] s1 = Some s2 \<and>
      handles s2 0 = Some (Rejected (Error ''down'')) \<and>
      step (\<lambda>v. v) s2 (Resume 0 1501 False) = Some s3 \<and>
      results s3 0 = Some (Rejected (Error ''down'')))"
proof -
  obtain s1 where c: "fetchWithCache ''x'' (OtherLogic ''x'') False 1500
        (init_sys 3 (storage_set (\<lambda>v. v) False 0 ''x'' (42::nat) (Finite 1000) Map.empty)) = (Awaiting 0, s1)"
    by (simp add: eval_defs)
  then have s1: "running s1 = [0]" "handles s1 = Map.empty"
    "awaiting s1 0 = Some \<lparr>frame_key = ''x'', frame_cached =
        Some \<lparr>cached_value = 42, isExpired = True, cached_timestamp = 0\<rparr>\<rparr>"
    by (auto simp: eval_defs)
  then obtain s2 where r: "run (\<lambda>v. v) [Settle 0 (Rejected (Error ''down''))] s1 = Some s2"
    and s2: "handles s2 0 = Some (Rejected (Error ''down''))" "awaiting s2 0 = awaiting s1 0"
    by simp
  from s2(2) s1(3) have "awaiting s2 0 = Some \<lparr>frame_key = ''x'', frame_cached =
        Some \<lparr>cached_value = 42, isExpired = True, cached_timestamp = 0\<rparr>\<rparr>"
    by simp
  from resume_enabled [OF this s2(1)] obtain s3 where p: "step (\<lambda>v. v) s2 (Resume 0 1501 False) = Some s3"
    by blast
  have g: "storage_get 1500 ''x'' (storage (init_sys 3 (storage_set (\<lambda>v. v) False 0 ''x'' (42::nat) (Finite 1000) Map.empty)))
             = Some \<lparr>cached_value = 42, isExpired = True, cached_timestamp = 0\<rparr>"
    by (simp add: eval_defs)
  obtain u1 where c': "fetchWithCache ''x'' (OtherLogic ''x'') False 1500
        (init_sys 3 (Map.empty :: nat localStorage)) = (Awaiting 0, u1)"
    by (simp add: eval_defs)
  then have u1: "running u1 = [0]" "handles u1 = Map.empty"
    "awaiting u1 0 = Some \<lparr>frame_key = ''x'', frame_cached = None\<rparr>"
    by (auto simp: eval_defs)
  then obtain u2 where r': "run (\<lambda>v. v) [Settle 0 (Rejected (Error ''down''))] u1 = Some u2"
    and u2: "handles u2 0 = Some (Rejected (Error ''down''))" "awaiting u2 0 = awaiting u1 0"
    by simp
  from u2(2) u1(3) have "awaiting u2 0 = Some \<lparr>frame_key = ''x'', frame_cached = None\<rparr>"
    by simp
  from resume_enabled [OF this u2(1)] obtain u3 where p': "step (\<lambda>v. v) u2 (Resume 0 1501 False) = Some u3"
    by blast
  have g': "storage_get 1500 ''x'' (storage (init_sys 3 (Map.empty :: nat localStorage))) = None"
    by (simp add: eval_defs)
  from stale_fallback [OF c r s2(1) p] g have "results s3 0 = Some (Fulfilled 42)" by simp
  moreover from stale_fallback [OF c' r' u2(1) p'] g'
  have "results u3 0 = Some (Rejected (Error ''down''))" by simp
  ultimately show ?thesis using c r s2(1) p c' r' u2(1) p' by blast
qed

text \<open>
  Claim C2. A call of \<open>fetchWithCache\<close> is suspended on the queue exactly when
  \<open>forceRefresh\<close> is set or the key has no entry that is not expired. With such an entry
  and no \<open>forceRefresh\<close> the cached value is returned at once and the state (queue,
  invoked operations, store) is unchanged. Otherwise exactly one task, the fetcher, is
  added to the queue by one call of \<open>add\<close>, pending or already invoked, also when a fresh
  entry is present and \<open>forceRefresh\<close> is set.
\<close>

theorem queued_iff_forced_or_stale:
  assumes "fetchWithCache key fetcher forceRefresh now s = (p, s')"
  shows "((\<exists>t. p = Awaiting t) = (forceRefresh \<or> \<not> fresh_entry now key (storage s))) \<and>
         (\<not> forceRefresh \<and> fresh_entry now key (storage s) \<longrightarrow>
            s' = s \<and> (\<exists>c. storage_get now key (storage s) = Some c \<and> p = Returned (cached_value c))) \<and>
         (forceRefresh \<or> \<not> fresh_entry now key (storage s) \<longrightarrow>
            p = Awaiting (length (tasks s)) \<and> tasks s' = tasks s @ [fetcher] \<and>
            length (tasks s) \<in> set (invoked s' @ queue (apiQueue s')) \<and>
            apiQueue s' = fst (add (length (tasks s)) (apiQueue s)) \<and>
            storage s' = storage s)"
proof -
  have q: "apiQueue (snd (apiQueue_add fetcher s)) = fst (add (length (tasks s)) (apiQueue s))"
    by (simp add: apiQueue_add_def started_def Let_def split: prod.splits option.splits)
  have m: "length (tasks s) \<in> set (invoked (snd (apiQueue_add fetcher s)) @
             queue (apiQueue (snd (apiQueue_add fetcher s))))"
    by (auto simp: apiQueue_add_def add_def started_def Let_def
        split: prod.splits option.splits dest!: processNext_cases)
       (metis in_set_conv_decomp list.set_intros(1) set_ConsD append_eq_Cons_conv)+
  from assms fetchWithCache_cases [of forceRefresh now key s fetcher] q m show ?thesis
    by (auto simp: apiQueue_add_tasks apiQueue_add_storage)
qed

theorem queued_iff_forced_or_stale_witness:
  "fresh_entry 500 ''x'' (storage (init_sys 3 (storage_set (\<lambda>v. v) False 0 ''x'' (42::nat) (Finite 1000) Map.empty))) \<and>
   fetchWithCache ''x'' (OtherLogic ''x'') False 500
      (init_sys 3 (storage_set (\<lambda>v. v) False 0 ''x'' (42::nat) (Finite 1000) Map.empty)) =
     (Returned 42, init_sys 3 (storage_set (\<lambda>v. v) False 0 ''x'' (42::nat) (Finite 1000) Map.empty)) \<and>
   (\<exists>s'. fetchWithCache ''x'' (OtherLogic ''x'') True 500
           (init_sys 3 (storage_set (\<lambda>v. v) False 0 ''x'' (42::nat) (Finite 1000) Map.empty)) = (Awaiting 0, s') \<and>
         tasks s' = [OtherLogic ''x''] \<and> 0 \<in> set (invoked s' @ queue (apiQueue s')))"
proof -
  let ?S = "init_sys 3 (storage_set (\<lambda>v. v) False 0 ''x'' (42::nat) (Finite 1000) Map.empty)"
  have f: "fresh_entry 500 ''x'' (storage ?S)"
    by (simp add: fresh_entry_def init_sys_def get_after_set)
  have g: "storage_get 500 ''x'' (storage ?S) =
             Some \<lparr>cached_value = 42, isExpired = False, cached_timestamp = 0\<rparr>"
    by (simp add: init_sys_def get_after_set)
  have t: "tasks ?S = []" by (simp add: init_sys_def)
  obtain p s' where a: "fetchWithCache ''x'' (OtherLogic ''x'') False 500 ?S = (p, s')"
    by (cases "fetchWithCache ''x'' (OtherLogic ''x'') False 500 ?S")
  obtain p2 s2 where b: "fetchWithCache ''x'' (OtherLogic ''x'') True 500 ?S = (p2, s2)"
    by (cases "fetchWithCache ''x'' (OtherLogic ''x'') True 500 ?S")
  from queued_iff_forced_or_stale [OF a] f g have "s' = ?S" "p = Returned 42" by auto
  moreover from queued_iff_forced_or_stale [OF b] t
  have "p2 = Awaiting 0" "tasks s2 = [OtherLogic ''x'']" "0 \<in> set (invoked s2 @ queue (apiQueue s2))"
    by auto
  ultimately show ?thesis using a b f by simp
qed

section \<open>Expired entries stay readable\<close>

lemma get_after_clearExpired:
  "ls (storage_prefix @ k) = Some (Json item) \<Longrightarrow>
     storage_get now' k (clearExpired now ls) =
       (if past now (expiry item) then None else storage_get now' k ls)"
  by (simp add: storage_get_def clearExpired_def startsWith_prefix)

lemma fetchWithCache_storage: "storage (snd (fetchWithCache key f force now s)) = storage s"
  using fetchWithCache_cases [of force now key s f] by (auto simp: apiQueue_add_storage)

text \<open>Only \<open>clearAll\<close> and the continuation of \<open>fetchWithCache\<close> write to the store.\<close>

lemma step_storage:
  assumes "step J s e = Some s'" and "e \<noteq> ClearAll" and "\<forall>t n b. e \<noteq> Resume t n b"
  shows "storage s' = storage s"
proof (cases e)
  case (Call key f force now)
  with assms(1) show ?thesis by (auto simp: fetchWithCache_storage)
next
  case (Add task)
  with assms(1) show ?thesis by (auto simp: apiQueue_add_storage)
next
  case (Settle t out)
  with assms(1) show ?thesis by (auto split: if_splits)
next
  case (Finally t)
  with assms(1) show ?thesis
    by (auto simp: started_def split: if_splits prod.splits option.splits)
next
  case (Resume t n b)
  with assms(3) show ?thesis by blast
next
  case ClearAll
  with assms(2) show ?thesis by simp
qed

text \<open>A continuation that stores under another key, or stores nothing, leaves the entry.\<close>

lemma resume_storage_other:
  assumes "step J s (Resume t n False) = Some s'" and "awaiting s t = Some fr"
    and "frame_key fr \<noteq> k"
  shows "storage_get now k (storage s') = storage_get now k (storage s)"
proof -
  from assms(1,2) obtain out where h: "handles s t = Some out"
    and s': "s' = s\<lparr>storage := snd (fetchWithCache_resume J fr out n False (storage s)),
                    awaiting := (awaiting s)(t := None),
                    results := (results s)(t \<mapsto> fst (fetchWithCache_resume J fr out n False (storage s)))\<rparr>"
    by (auto split: option.splits prod.splits)
  have "storage_get now k (snd (fetchWithCache_resume J fr out n False (storage s))) =
          storage_get now k (storage s)"
    using assms(3)
    by (cases out) (auto simp: fetchWithCache_resume_def get_after_set_other split: option.splits)
  with s' show ?thesis by simp
qed

text \<open>
  Claim C7. For a stored entry whose expiry lies before the clock reading, \<open>get\<close> returns
  the stored value with \<open>isExpired = true\<close>, and reading changes nothing: \<open>get\<close> returns
  no new store, and the store is the same after the lookup of \<open>fetchWithCache\<close>. The
  entry stays readable: a \<open>set\<close> or a \<open>remove\<close> of another key leaves it, every event
  of the system other than \<open>clearAll\<close> and a continuation of \<open>fetchWithCache\<close> leaves
  the whole store, and such a continuation leaves it when it stores under another key.
  It is gone after \<open>remove\<close> of its key, \<open>clearAll\<close> or \<open>clearExpired\<close> (which a
  \<open>set\<close> that throws runs), and replaced by a \<open>set\<close> of its key.
\<close>

theorem expired_entry_still_readable:
  assumes "ls (storage_prefix @ k) = Some (Json item)" and "past now (expiry item)"
  shows "storage_get now k ls =
           Some \<lparr>cached_value = val item, isExpired = True, cached_timestamp = timestamp item\<rparr> \<and>
         (storage s = ls \<longrightarrow> storage (snd (fetchWithCache k fetcher forceRefresh now s)) = ls) \<and>
         (k' \<noteq> k \<longrightarrow>
            storage_get now k (storage_set J False now' k' v' ttl' ls) = storage_get now k ls) \<and>
         (k' \<noteq> k \<longrightarrow> storage_get now k (remove k' ls) = storage_get now k ls) \<and>
         (\<forall>e s'. storage s = ls \<and> step J s e = Some s' \<and> e \<noteq> ClearAll \<and>
                 (\<forall>t n b. e \<noteq> Resume t n b) \<longrightarrow> storage s' = ls) \<and>
         (\<forall>t n fr s'. storage s = ls \<and> step J s (Resume t n False) = Some s' \<and>
                 awaiting s t = Some fr \<and> frame_key fr \<noteq> k \<longrightarrow>
                 storage_get now k (storage s') = storage_get now k ls) \<and>
         storage_get now k (remove k ls) = None \<and>
         storage_get now k (clearAll ls) = None \<and>
         storage_get now k (clearExpired now ls) = None \<and>
         storage_get now k (storage_set J True now k' v' ttl' ls) = None \<and>
         storage_get now k (storage_set J False now k v ttl ls) =
           Some \<lparr>cached_value = J v, isExpired = past now (JSON_number (plus_number now ttl)),
                 cached_timestamp = now\<rparr>"
proof -
  have 1: "storage_get now k ls =
           Some \<lparr>cached_value = val item, isExpired = True, cached_timestamp = timestamp item\<rparr>"
    using assms by (simp add: storage_get_def)
  have 2: "storage s = ls \<longrightarrow> storage (snd (fetchWithCache k fetcher forceRefresh now s)) = ls"
    by (simp add: fetchWithCache_storage)
  have 3: "k' \<noteq> k \<longrightarrow>
            storage_get now k (storage_set J False now' k' v' ttl' ls) = storage_get now k ls"
    by (simp add: get_after_set_other)
  have 4: "k' \<noteq> k \<longrightarrow> storage_get now k (remove k' ls) = storage_get now k ls"
    by (simp add: get_after_remove_other)
  have 5: "\<forall>e s'. storage s = ls \<and> step J s e = Some s' \<and> e \<noteq> ClearAll \<and>
                 (\<forall>t n b. e \<noteq> Resume t n b) \<longrightarrow> storage s' = ls"
    using step_storage [of J s] by blast
  have 6: "\<forall>t n fr s'. storage s = ls \<and> step J s (Resume t n False) = Some s' \<and>
                 awaiting s t = Some fr \<and> frame_key fr \<noteq> k \<longrightarrow>
                 storage_get now k (storage s') = storage_get now k ls"
    using resume_storage_other [of J s _ _ _ _ k now] by blast
  have 7: "storage_get now k (clearExpired now ls) = None"
    using assms by (simp add: get_after_clearExpired)
  have 8: "storage_get now k (storage_set J True now k' v' ttl' ls) = None"
    using 7 by (simp add: storage_set_def)
  from 1 2 3 4 5 6 7 8 show ?thesis
    by (simp only: get_after_remove get_after_clearAll get_after_set simp_thms)
qed

text \<open>A call for a key without an entry, followed by the success of its fetch.\<close>

lemma call_then_settle:
  assumes "storage_get now key ls = None"
  shows "\<exists>s2. run J [Call key f False now, Settle 0 (Fulfilled d)] (init_sys 3 ls) = Some s2 \<and>
           storage s2 = ls \<and> handles s2 0 = Some (Fulfilled d) \<and>
           awaiting s2 0 = Some \<lparr>frame_key = key, frame_cached = None\<rparr>"
  using assms
  by (simp add: init_sys_def new_RequestQueue_def apiQueue_add_def add_def processNext_def
      started_def fetchWithCache_def)

theorem expired_entry_still_readable_witness:
  "(storage_set (\<lambda>v. v) False 0 ''x'' (42::nat) (Finite 1000) Map.empty) (storage_prefix @ ''x'') =
      Some (Json \<lparr>val = 42, timestamp = 0, expiry = Some 1000\<rparr>) \<and>
   past 1500 (expiry \<lparr>val = 42::nat, timestamp = 0, expiry = Some 1000\<rparr>) \<and>
   storage_get 1500 ''x'' (storage_set (\<lambda>v. v) False 0 ''x'' (42::nat) (Finite 1000) Map.empty) =
      Some \<lparr>cached_value = 42, isExpired = True, cached_timestamp = 0\<rparr> \<and>
   storage (snd (fetchWithCache ''x'' (OtherLogic ''x'') False 1500
      (init_sys 3 (storage_set (\<lambda>v. v) False 0 ''x'' (42::nat) (Finite 1000) Map.empty)))) =
      storage_set (\<lambda>v. v) False 0 ''x'' 42 (Finite 1000) Map.empty \<and>
   ''y'' \<noteq> ''x'' \<and>
   storage_get 1500 ''x'' (storage_set (\<lambda>v. v) False 1200 ''y'' 7 (Finite 1000)
      (storage_set (\<lambda>v. v) False 0 ''x'' (42::nat) (Finite 1000) Map.empty)) =
      Some \<lparr>cached_value = 42, isExpired = True, cached_timestamp = 0\<rparr> \<and>
   storage_get 1500 ''x'' (remove ''y''
      (storage_set (\<lambda>v. v) False 0 ''x'' (42::nat) (Finite 1000) Map.empty)) =
      Some \<lparr>cached_value = 42, isExpired = True, cached_timestamp = 0\<rparr> \<and>
   (\<exists>s'. step (\<lambda>v. v)
           (init_sys 3 (storage_set (\<lambda>v. v) False 0 ''x'' (42::nat) (Finite 1000) Map.empty))
           (Add (OtherLogic ''a'')) = Some s' \<and>
         storage s' = storage_set (\<lambda>v. v) False 0 ''x'' 42 (Finite 1000) Map.empty) \<and>
   (\<exists>s2 s3 fr.
      run (\<lambda>v. v) [Call ''y'' (OtherLogic ''y'') False 1200, Settle 0 (Fulfilled 7)]
        (init_sys 3 (storage_set (\<lambda>v. v) False 0 ''x'' (42::nat) (Finite 1000) Map.empty)) =
        Some s2 \<and>
      storage s2 = storage_set (\<lambda>v. v) False 0 ''x'' 42 (Finite 1000) Map.empty \<and>
      awaiting s2 0 = Some fr \<and> frame_key fr \<noteq> ''x'' \<and>
      step (\<lambda>v. v) s2 (Resume 0 1300 False) = Some s3 \<and>
      storage_get 1500 ''x'' (storage s3) =
        Some \<lparr>cached_value = 42, isExpired = True, cached_timestamp = 0\<rparr>) \<and>
   storage_get 1500 ''x'' (remove ''x''
      (storage_set (\<lambda>v. v) False 0 ''x'' (42::nat) (Finite 1000) Map.empty)) = None \<and>
   storage_get 1500 ''x'' (clearExpired 1500
      (storage_set (\<lambda>v. v) False 0 ''x'' (42::nat) (Finite 1000) Map.empty)) = None \<and>
   storage_get 1500 ''x'' (storage_set (\<lambda>v. v) True 1500 ''y'' 7 (Finite 1000)
      (storage_set (\<lambda>v. v) False 0 ''x'' (42::nat) (Finite 1000) Map.empty)) = None"
proof -
  let ?ls = "storage_set (\<lambda>v. v) False 0 ''x'' (42::nat) (Finite 1000) Map.empty"
  let ?S = "init_sys 3 ?ls"
  have 1: "?ls (storage_prefix @ ''x'') = Some (Json \<lparr>val = 42, timestamp = 0, expiry = Some 1000\<rparr>)"
    by (simp add: storage_set_def)
  have 2: "past 1500 (expiry \<lparr>val = 42::nat, timestamp = 0, expiry = Some 1000\<rparr>)" by simp
  have 3: "storage ?S = ?ls" by (simp add: init_sys_def)
  have 4: "''y'' \<noteq> ''x''" by simp
  obtain s' where 5: "step (\<lambda>v. v) ?S (Add (OtherLogic ''a'')) = Some s'" by simp
  note th = expired_entry_still_readable [where ls = ?ls and k = "''x''" and now = 1500
      and item = "\<lparr>val = 42, timestamp = 0, expiry = Some 1000\<rparr>" and s = ?S
      and fetcher = "OtherLogic ''x''" and forceRefresh = False and k' = "''y''"
      and J = "\<lambda>v. v" and now' = 1200 and v' = 7 and ttl' = "Finite 1000", OF 1 2]
  from th have a: "storage_get 1500 ''x'' ?ls =
      Some \<lparr>cached_value = 42, isExpired = True, cached_timestamp = 0\<rparr>"
    by simp
  from th 3 have b: "storage (snd (fetchWithCache ''x'' (OtherLogic ''x'') False 1500 ?S)) = ?ls"
    by blast
  from th 4 a have c: "storage_get 1500 ''x'' (storage_set (\<lambda>v. v) False 1200 ''y'' 7 (Finite 1000) ?ls) =
      Some \<lparr>cached_value = 42, isExpired = True, cached_timestamp = 0\<rparr>"
    "storage_get 1500 ''x'' (remove ''y'' ?ls) =
      Some \<lparr>cached_value = 42, isExpired = True, cached_timestamp = 0\<rparr>"
    by simp_all
  have "Add (OtherLogic ''a'') \<noteq> (ClearAll :: nat event)"
    "\<forall>t n b. Add (OtherLogic ''a'') \<noteq> (Resume t n b :: nat event)"
    by simp_all
  with th 3 5 have d: "storage s' = ?ls" by blast
  from th have e: "storage_get 1500 ''x'' (remove ''x'' ?ls) = None"
    "storage_get 1500 ''x'' (clearExpired 1500 ?ls) = None"
    "storage_get 1500 ''x'' (storage_set (\<lambda>v. v) True 1500 ''y'' 7 (Finite 1000) ?ls) = None"
    by blast+
  have "storage_get 1200 ''y'' ?ls = storage_get 1200 ''y'' Map.empty"
    by (simp add: get_after_set_other)
  then have gy: "storage_get 1200 ''y'' ?ls = None"
    by (simp add: storage_get_def)
  from call_then_settle [OF gy] obtain s2
    where r: "run (\<lambda>v. v) [Call ''y'' (OtherLogic ''y'') False 1200, Settle 0 (Fulfilled 7)]
        ?S = Some s2"
    and s2: "storage s2 = ?ls" "handles s2 0 = Some (Fulfilled 7)"
      "awaiting s2 0 = Some \<lparr>frame_key = ''y'', frame_cached = None\<rparr>"
    by blast
  from resume_enabled [OF s2(3,2)] obtain s3
    where p: "step (\<lambda>v. v) s2 (Resume 0 1300 False) = Some s3"
    by blast
  have k: "frame_key \<lparr>frame_key = ''y'', frame_cached = (None :: nat cached option)\<rparr> \<noteq> ''x''"
    by simp
  note th2 = expired_entry_still_readable [where ls = ?ls and k = "''x''" and now = 1500
      and item = "\<lparr>val = 42, timestamp = 0, expiry = Some 1000\<rparr>" and s = s2
      and J = "\<lambda>v. v", OF 1 2]
  note c6 = th2 [THEN conjunct2, THEN conjunct2, THEN conjunct2, THEN conjunct2, THEN conjunct2,
      THEN conjunct1, rule_format, of 0 1300 s3
      "\<lparr>frame_key = ''y'', frame_cached = (None :: nat cached option)\<rparr>"]
  from s2(1,3) p k have "storage_get 1500 ''x'' (storage s3) = storage_get 1500 ''x'' ?ls"
    by (intro c6 conjI)
  with a have f: "storage_get 1500 ''x'' (storage s3) =
        Some \<lparr>cached_value = 42, isExpired = True, cached_timestamp = 0\<rparr>"
    by simp
  from r s2(1,3) k p f
  have g: "\<exists>s2 s3 fr.
      run (\<lambda>v. v) [Call ''y'' (OtherLogic ''y'') False 1200, Settle 0 (Fulfilled 7)] ?S = Some s2 \<and>
      storage s2 = ?ls \<and> awaiting s2 0 = Some fr \<and> frame_key fr \<noteq> ''x'' \<and>
      step (\<lambda>v. v) s2 (Resume 0 1300 False) = Some s3 \<and>
      storage_get 1500 ''x'' (storage s3) =
        Some \<lparr>cached_value = 42, isExpired = True, cached_timestamp = 0\<rparr>"
    by blast
  from 5 d have h: "\<exists>s'. step (\<lambda>v. v) ?S (Add (OtherLogic ''a'')) = Some s' \<and> storage s' = ?ls"
    by (intro exI conjI)
  from 1 2 4 a b c h g e show ?thesis
    by (intro conjI)
qed

lemma showNat_30: "showNat 30 = ''30''"
  by (simp add: showNat.simps)

section \<open>The prefetch scheduler\<close>

lemma fetchWithCache_results: "results (snd (fetchWithCache key f force now s)) = results s"
  using fetchWithCache_cases [of force now key s f] by (auto simp: apiQueue_add_results)

lemma fetchWithCache_tasks:
  "tasks (snd (fetchWithCache key f False now s)) =
     tasks s @ (if fresh_entry now key (storage s) then [] else [f])"
  using fetchWithCache_cases [of False now key s f] by (auto simp: apiQueue_add_tasks)

lemma prefetch_effect:
  "tasks (prefetchAllStocksDetails stocks now s) =
     tasks s @ concat (map (wanted now (storage s)) stocks) \<and>
   storage (prefetchAllStocksDetails stocks now s) = storage s \<and>
   results (prefetchAllStocksDetails stocks now s) = results s"
proof (induction stocks arbitrary: s)
  case Nil
  show ?case by simp
next
  case (Cons stock stocks)
  let ?c = "code stock"
  let ?s1 = "if \<not> fresh_entry now (''stock_detail_'' @ ?c) (storage s)
             then snd (fetchStockDetail ?c now s) else s"
  let ?s2 = "if \<not> fresh_entry now (''stock_history_'' @ ?c @ ''_30'') (storage s)
             then snd (fetchHistoricalData ?c 30 now ?s1) else ?s1"
  let ?s3 = "if \<not> fresh_entry now (''stock_prediction_'' @ ?c) (storage s)
             then snd (fetchStockPrediction ?c now ?s2) else ?s2"
  have unfold: "prefetchAllStocksDetails (stock # stocks) now s =
                  prefetchAllStocksDetails stocks now ?s3"
    by (simp add: Let_def)
  have 1: "storage ?s1 = storage s" "results ?s1 = results s"
    "tasks ?s1 = tasks s @ (if fresh_entry now (''stock_detail_'' @ ?c) (storage s) then []
                            else [StockDetailLogic ?c])"
    by (simp_all add: fetchStockDetail_def fetchWithCache_storage fetchWithCache_results
        fetchWithCache_tasks)
  have 2: "storage ?s2 = storage s" "results ?s2 = results s"
    "tasks ?s2 = tasks ?s1 @ (if fresh_entry now (''stock_history_'' @ ?c @ ''_30'') (storage s)
                              then [] else [HistoricalDataLogic ?c 30])"
    using 1(1,2)
    by (simp_all add: fetchHistoricalData_def fetchWithCache_storage fetchWithCache_results
        fetchWithCache_tasks showNat_30)
  have 3: "storage ?s3 = storage s" "results ?s3 = results s"
    "tasks ?s3 = tasks ?s2 @ (if fresh_entry now (''stock_prediction_'' @ ?c) (storage s)
                              then [] else [StockPredictionLogic ?c])"
    using 2(1,2)
    by (simp_all add: fetchStockPrediction_def fetchWithCache_storage fetchWithCache_results
        fetchWithCache_tasks)
  have "tasks ?s3 = tasks s @ wanted now (storage s) stock"
    unfolding 3(3) 2(3) 1(3) by (simp add: wanted_def)
  with Cons.IH [of ?s3] 3(1,2) show ?case
    unfolding unfold by simp
qed

lemma wanted_details:
  "length (filter isDetailLogic (wanted now ls stock)) =
     (if fresh_entry now (''stock_detail_'' @ code stock) ls then 0 else 1)"
  by (simp add: wanted_def)

lemma concat_wanted_details:
  "length (filter isDetailLogic (concat (map (wanted now ls) stocks))) =
     length (filter (\<lambda>stock. \<not> fresh_entry now (''stock_detail_'' @ code stock) ls) stocks)"
  by (induction stocks) (simp_all add: wanted_details)

lemma in_wanted:
  "op \<in> set (wanted now ls stock) \<Longrightarrow>
     op = StockDetailLogic (code stock) \<or> op = HistoricalDataLogic (code stock) 30 \<or>
     op = StockPredictionLogic (code stock)"
  by (auto simp: wanted_def split: if_splits)

lemma wanted_same_code:
  "op \<in> set (wanted now ls x) \<Longrightarrow> op \<in> set (wanted now ls y) \<Longrightarrow> code x = code y"
  by (auto dest!: in_wanted)

lemma distinct_wanted: "distinct (wanted now ls stock)"
  by (simp add: wanted_def)

lemma distinct_concat_wanted:
  "distinct (map code stocks) \<Longrightarrow> distinct (concat (map (wanted now ls) stocks))"
proof (induction stocks)
  case Nil
  show ?case by simp
next
  case (Cons x xs)
  have "set (wanted now ls x) \<inter> set (concat (map (wanted now ls) xs)) = {}"
  proof (rule ccontr)
    assume "set (wanted now ls x) \<inter> set (concat (map (wanted now ls) xs)) \<noteq> {}"
    then obtain op y where "op \<in> set (wanted now ls x)" "y \<in> set xs" "op \<in> set (wanted now ls y)"
      by auto
    from wanted_same_code [OF this(1,3)] this(2) have "code x \<in> code ` set xs" by auto
    with Cons.prems show False by simp
  qed
  with Cons show ?case by (simp add: distinct_wanted)
qed

text \<open>
  Claim C8, as stated, fails for a list that holds an entity twice: each occurrence
  starts its own fetches, so the detail fetch of entity \<open>A\<close> is started twice in one run.
\<close>

theorem prefetch_starts_wanted_counterexample:
  "count_list
     (tasks (prefetchAllStocksDetails
        [mapToFrontendStock exact_ops
           \<lparr>symbol = SymbolString ''A'', stock_name = ''a'', stock_keywords = []\<rparr>,
         mapToFrontendStock exact_ops
           \<lparr>symbol = SymbolString ''A'', stock_name = ''a'', stock_keywords = []\<rparr>]
        500 (init_sys 3 (Map.empty :: nat localStorage))))
     (StockDetailLogic ''A'') = 2"
proof -
  have s: "storage (init_sys 3 (Map.empty :: nat localStorage)) = Map.empty"
    "tasks (init_sys 3 (Map.empty :: nat localStorage)) = []"
    by (simp_all add: init_sys_def)
  have n: "\<not> fresh_entry 500 k (Map.empty :: nat localStorage)" for k
    by (simp add: fresh_entry_def storage_get_def)
  have w: "wanted 500 (Map.empty :: nat localStorage)
             (mapToFrontendStock exact_ops
                \<lparr>symbol = SymbolString ''A'', stock_name = ''a'', stock_keywords = []\<rparr>)
             = [StockDetailLogic ''A'', HistoricalDataLogic ''A'' 30, StockPredictionLogic ''A'']"
    by (simp add: wanted_def mapToFrontendStock_def n)
  from prefetch_effect [of
      "[mapToFrontendStock exact_ops
          \<lparr>symbol = SymbolString ''A'', stock_name = ''a'', stock_keywords = []\<rparr>,
        mapToFrontendStock exact_ops
          \<lparr>symbol = SymbolString ''A'', stock_name = ''a'', stock_keywords = []\<rparr>]"
      500 "init_sys 3 (Map.empty :: nat localStorage)"]
  show ?thesis by (simp add: s w del: prefetchAllStocksDetails.simps)
qed

text \<open>
  Claim C8, amended. One run of the prefetch scheduler adds to the queue, in list order,
  exactly the operations \<open>wanted\<close>: for every element of the list and each of its three
  keys (detail, history, prediction) nothing when the store has an entry for the key that
  is not expired, and otherwise one fetch of that kind. So there is exactly one fetch per
  list element and kind without a fresh entry; when no code occurs twice in the list, no
  fetch is started twice, which is one per entity and kind. The number of detail fetches
  started is the number of list elements without a fresh detail entry (two, for three
  entities of which one has a fresh detail entry). The scheduler writes nothing to the
  store and delivers no result: what the fetches return or throw is dropped.
\<close>

theorem prefetch_starts_wanted:
  "tasks (prefetchAllStocksDetails stocks now s) =
     tasks s @ concat (map (wanted now (storage s)) stocks) \<and>
   (distinct (map code stocks) \<longrightarrow>
      distinct (drop (length (tasks s)) (tasks (prefetchAllStocksDetails stocks now s)))) \<and>
   length (filter isDetailLogic (drop (length (tasks s))
                                   (tasks (prefetchAllStocksDetails stocks now s)))) =
     length (filter (\<lambda>stock. \<not> fresh_entry now (''stock_detail_'' @ code stock) (storage s))
               stocks) \<and>
   storage (prefetchAllStocksDetails stocks now s) = storage s \<and>
   results (prefetchAllStocksDetails stocks now s) = results s"
  using prefetch_effect [of stocks now s]
  by (simp add: concat_wanted_details distinct_concat_wanted)

theorem prefetch_starts_wanted_witness:
  "distinct (map code
     [mapToFrontendStock exact_ops
        \<lparr>symbol = SymbolString ''A'', stock_name = ''a'', stock_keywords = []\<rparr>,
      mapToFrontendStock exact_ops
        \<lparr>symbol = SymbolString ''B'', stock_name = ''b'', stock_keywords = []\<rparr>,
      mapToFrontendStock exact_ops
        \<lparr>symbol = SymbolString ''C'', stock_name = ''c'', stock_keywords = []\<rparr>]) \<and>
   length (filter isDetailLogic
     (tasks (prefetchAllStocksDetails
        [mapToFrontendStock exact_ops
           \<lparr>symbol = SymbolString ''A'', stock_name = ''a'', stock_keywords = []\<rparr>,
         mapToFrontendStock exact_ops
           \<lparr>symbol = SymbolString ''B'', stock_name = ''b'', stock_keywords = []\<rparr>,
         mapToFrontendStock exact_ops
           \<lparr>symbol = SymbolString ''C'', stock_name = ''c'', stock_keywords = []\<rparr>]
        500
        (init_sys 3 (storage_set (\<lambda>v. v) False 0 ''stock_detail_B'' (42::nat) (Finite 1000)
                       Map.empty))))) = 2 \<and>
   tasks (prefetchAllStocksDetails
        [mapToFrontendStock exact_ops
           \<lparr>symbol = SymbolString ''A'', stock_name = ''a'', stock_keywords = []\<rparr>,
         mapToFrontendStock exact_ops
           \<lparr>symbol = SymbolString ''B'', stock_name = ''b'', stock_keywords = []\<rparr>,
         mapToFrontendStock exact_ops
           \<lparr>symbol = SymbolString ''C'', stock_name = ''c'', stock_keywords = []\<rparr>]
        500
        (init_sys 3 (storage_set (\<lambda>v. v) False 0 ''stock_detail_B'' (42::nat) (Finite 1000)
                       Map.empty))) =
     [StockDetailLogic ''A'', HistoricalDataLogic ''A'' 30, StockPredictionLogic ''A'',
      HistoricalDataLogic ''B'' 30, StockPredictionLogic ''B'',
      StockDetailLogic ''C'', HistoricalDataLogic ''C'' 30, StockPredictionLogic ''C''] \<and>
   distinct (tasks (prefetchAllStocksDetails
        [mapToFrontendStock exact_ops
           \<lparr>symbol = SymbolString ''A'', stock_name = ''a'', stock_keywords = []\<rparr>,
         mapToFrontendStock exact_ops
           \<lparr>symbol = SymbolString ''B'', stock_name = ''b'', stock_keywords = []\<rparr>,
         mapToFrontendStock exact_ops
           \<lparr>symbol = SymbolString ''C'', stock_name = ''c'', stock_keywords = []\<rparr>]
        500
        (init_sys 3 (storage_set (\<lambda>v. v) False 0 ''stock_detail_B'' (42::nat) (Finite 1000)
                       Map.empty))))"
proof -
  let ?ls = "storage_set (\<lambda>v. v) False 0 ''stock_detail_B'' (42::nat) (Finite 1000) Map.empty"
  let ?a = "mapToFrontendStock exact_ops
              \<lparr>symbol = SymbolString ''A'', stock_name = ''a'', stock_keywords = []\<rparr>"
  let ?b = "mapToFrontendStock exact_ops
              \<lparr>symbol = SymbolString ''B'', stock_name = ''b'', stock_keywords = []\<rparr>"
  let ?c = "mapToFrontendStock exact_ops
              \<lparr>symbol = SymbolString ''C'', stock_name = ''c'', stock_keywords = []\<rparr>"
  have s: "storage (init_sys 3 ?ls) = ?ls" "tasks (init_sys 3 ?ls) = []"
    by (simp_all add: init_sys_def)
  have d: "distinct (map code [?a, ?b, ?c])"
    by (simp add: mapToFrontendStock_def)
  have f: "fresh_entry 500 ''stock_detail_B'' ?ls"
    by (simp add: fresh_entry_def get_after_set)
  have n: "\<not> fresh_entry 500 k ?ls" if "k \<noteq> ''stock_detail_B''" for k
    using that by (simp add: fresh_entry_def storage_get_def storage_set_def)
  have w: "wanted 500 ?ls ?a
             = [StockDetailLogic ''A'', HistoricalDataLogic ''A'' 30, StockPredictionLogic ''A'']"
    "wanted 500 ?ls ?b = [HistoricalDataLogic ''B'' 30, StockPredictionLogic ''B'']"
    "wanted 500 ?ls ?c
             = [StockDetailLogic ''C'', HistoricalDataLogic ''C'' 30, StockPredictionLogic ''C'']"
    by (simp_all add: wanted_def mapToFrontendStock_def f n)
  note th = prefetch_starts_wanted [of "[?a, ?b, ?c]" 500 "init_sys 3 ?ls"]
  from th have "tasks (prefetchAllStocksDetails [?a, ?b, ?c] 500 (init_sys 3 ?ls)) =
     tasks (init_sys 3 ?ls) @ concat (map (wanted 500 (storage (init_sys 3 ?ls))) [?a, ?b, ?c])"
    by blast
  then have 1: "tasks (prefetchAllStocksDetails [?a, ?b, ?c] 500 (init_sys 3 ?ls)) =
     [StockDetailLogic ''A'', HistoricalDataLogic ''A'' 30, StockPredictionLogic ''A'',
      HistoricalDataLogic ''B'' 30, StockPredictionLogic ''B'',
      StockDetailLogic ''C'', HistoricalDataLogic ''C'' 30, StockPredictionLogic ''C'']"
    by (simp add: s w del: prefetchAllStocksDetails.simps)
  from th d have "distinct (drop (length (tasks (init_sys 3 ?ls)))
      (tasks (prefetchAllStocksDetails [?a, ?b, ?c] 500 (init_sys 3 ?ls))))"
    by blast
  then have 2: "distinct (tasks (prefetchAllStocksDetails [?a, ?b, ?c] 500 (init_sys 3 ?ls)))"
    by (simp add: s del: prefetchAllStocksDetails.simps)
  from 1 have 3: "length (filter isDetailLogic
     (tasks (prefetchAllStocksDetails [?a, ?b, ?c] 500 (init_sys 3 ?ls)))) = 2"
    by (simp del: prefetchAllStocksDetails.simps)
  from d 1 2 3 show ?thesis by blast
qed

section \<open>The manual full refresh\<close>

lemma refreshStocksData_cases:
  "refreshStocksData now s =
     (Awaiting (length (tasks s)),
      (snd (apiQueue_add StocksListLogic (s\<lparr>storage := clearAll (storage s)\<rparr>)))
        \<lparr>awaiting := (awaiting s)(length (tasks s) \<mapsto>
            \<lparr>frame_key = ''stocks_list'', frame_cached = None\<rparr>)\<rparr>)"
  using fetchWithCache_cases [of False now "''stocks_list''" "s\<lparr>storage := clearAll (storage s)\<rparr>"
      StocksListLogic]
  by (simp add: refreshStocksData_def fetchStocks_def fresh_entry_def get_after_clearAll)

text \<open>
  Claim C10. \<open>refreshStocksData\<close> clears the namespace before the list fetch looks the
  key up: after its synchronous part no key has an entry, the call is suspended on the
  queue with no cached value kept, and when the fetch is rejected the call is rejected
  too, \<open>fetchStocks\<close> rethrowing the reason as \<open>FETCH_STOCKS_ERROR\<close>. A forced refresh
  through \<open>fetchWithCache\<close> in the same state and with the same rejection would have
  returned the entry that existed.
\<close>

theorem refresh_has_no_fallback:
  assumes call: "refreshStocksData now s = (p, s1)"
    and run: "run J es s1 = Some s2"
    and rejected: "handles s2 (length (tasks s)) = Some (Rejected e)"
    and resume: "step J s2 (Resume (length (tasks s)) now' throws) = Some s3"
  shows "p = Awaiting (length (tasks s)) \<and>
         storage s1 = clearAll (storage s) \<and>
         (\<forall>k. storage_get now k (storage s1) = None) \<and>
         awaiting s1 (length (tasks s)) = Some \<lparr>frame_key = ''stocks_list'', frame_cached = None\<rparr> \<and>
         results s3 (length (tasks s)) = Some (Rejected e) \<and>
         fst (fetchStocks_settled (Rejected e) now'' s3) =
           Rejected (ApiError ''FETCH_STOCKS_ERROR''
                       (case e of Error message \<Rightarrow> message | _ \<Rightarrow> fetchStocksFailedText) e) \<and>
         (\<forall>c t u1 u2 u3 es'.
            storage_get now ''stocks_list'' (storage s) = Some c \<and>
            fetchWithCache ''stocks_list'' StocksListLogic True now s = (Awaiting t, u1) \<and>
            run J es' u1 = Some u2 \<and> handles u2 t = Some (Rejected e) \<and>
            step J u2 (Resume t now' throws) = Some u3 \<longrightarrow>
            results u3 t = Some (Fulfilled (cached_value c)))"
proof -
  from call refreshStocksData_cases [of now s]
  have p: "p = Awaiting (length (tasks s))"
    and s1: "s1 = (snd (apiQueue_add StocksListLogic (s\<lparr>storage := clearAll (storage s)\<rparr>)))
        \<lparr>awaiting := (awaiting s)(length (tasks s) \<mapsto>
            \<lparr>frame_key = ''stocks_list'', frame_cached = None\<rparr>)\<rparr>"
    by simp_all
  from s1 have st: "storage s1 = clearAll (storage s)"
    by (simp add: apiQueue_add_storage)
  from call p have c: "fetchWithCache ''stocks_list'' StocksListLogic False now
      (s\<lparr>storage := clearAll (storage s)\<rparr>) = (Awaiting (length (tasks s)), s1)"
    by (simp add: refreshStocksData_def fetchStocks_def)
  from suspended_call_resumes [OF c run resume] rejected
  have r: "results s3 (length (tasks s)) = Some (Rejected e)"
    by (auto simp: fetchWithCache_resume_def get_after_clearAll)
  have forced: "results u3 t = Some (Fulfilled (cached_value c))"
    if "storage_get now ''stocks_list'' (storage s) = Some c"
      and "fetchWithCache ''stocks_list'' StocksListLogic True now s = (Awaiting t, u1)"
      and "run J es' u1 = Some u2" and "handles u2 t = Some (Rejected e)"
      and "step J u2 (Resume t now' throws) = Some u3"
    for c t u1 u2 u3 es'
    using suspended_call_resumes [OF that(2,3,5)] that(1,4)
    by (auto simp: fetchWithCache_resume_def)
  have k: "\<forall>k. storage_get now k (storage s1) = None"
    using st by (simp add: get_after_clearAll)
  have aw: "awaiting s1 (length (tasks s)) =
              Some \<lparr>frame_key = ''stocks_list'', frame_cached = None\<rparr>"
    using s1 by simp
  have fs: "fst (fetchStocks_settled (Rejected e) now'' s3) =
           Rejected (ApiError ''FETCH_STOCKS_ERROR''
                       (case e of Error message \<Rightarrow> message | _ \<Rightarrow> fetchStocksFailedText) e)"
    by (simp add: fetchStocks_settled_def)
  from p st k aw r fs forced show ?thesis by blast
qed

theorem refresh_has_no_fallback_witness:
  "storage_get 500 ''stocks_list''
      (storage (init_sys 3 (storage_set (\<lambda>v. v) False 0 ''stocks_list''
         \<lparr>success = True, data = StockListData ([] :: rat Stock list), response_timestamp = ''t0''\<rparr> (Finite 1000) Map.empty))) =
     Some \<lparr>cached_value = \<lparr>success = True, data = StockListData ([] :: rat Stock list), response_timestamp = ''t0''\<rparr>,
           isExpired = False, cached_timestamp = 0\<rparr> \<and>
   (\<exists>s1 s2 s3.
      refreshStocksData 500
        (init_sys 3 (storage_set (\<lambda>v. v) False 0 ''stocks_list''
           \<lparr>success = True, data = StockListData ([] :: rat Stock list), response_timestamp = ''t0''\<rparr> (Finite 1000) Map.empty)) =
        (Awaiting 0, s1) \<and>
      run (\<lambda>v. v) [Settle 0 (Rejected (Error ''down''))] s1 = Some s2 \<and>
      handles s2 0 = Some (Rejected (Error ''down'')) \<and>
      step (\<lambda>v. v) s2 (Resume 0 501 False) = Some s3 \<and>
      results s3 0 = Some (Rejected (Error ''down'')) \<and>
      fst (fetchStocks_settled (Rejected (Error ''down'')) 502 s3) =
        Rejected (ApiError ''FETCH_STOCKS_ERROR'' ''down'' (Error ''down''))) \<and>
   (\<exists>u1 u2 u3.
      fetchWithCache ''stocks_list'' StocksListLogic True 500
        (init_sys 3 (storage_set (\<lambda>v. v) False 0 ''stocks_list''
           \<lparr>success = True, data = StockListData ([] :: rat Stock list), response_timestamp = ''t0''\<rparr> (Finite 1000) Map.empty)) =
        (Awaiting 0, u1) \<and>
      run (\<lambda>v. v) [Settle 0 (Rejected (Error ''down''))] u1 = Some u2 \<and>
      handles u2 0 = Some (Rejected (Error ''down'')) \<and>
      step (\<lambda>v. v) u2 (Resume 0 501 False) = Some u3 \<and>
      results u3 0 =
        Some (Fulfilled \<lparr>success = True, data = StockListData ([] :: rat Stock list), response_timestamp = ''t0''\<rparr>))"
proof -
  let ?v = "\<lparr>success = True, data = StockListData ([] :: rat Stock list), response_timestamp = ''t0''\<rparr>"
  let ?S = "init_sys 3 (storage_set (\<lambda>v. v) False 0 ''stocks_list'' ?v (Finite 1000) Map.empty)"
  have g: "storage_get 500 ''stocks_list'' (storage ?S) =
             Some \<lparr>cached_value = ?v, isExpired = False, cached_timestamp = 0\<rparr>"
    by (simp add: init_sys_def get_after_set)
  have t0: "length (tasks ?S) = 0" by (simp add: init_sys_def)
  have q: "running (snd (apiQueue_add StocksListLogic (s\<lparr>storage := ls\<rparr>))) = [0]"
      "handles (snd (apiQueue_add StocksListLogic (s\<lparr>storage := ls\<rparr>))) = Map.empty"
    if "s = ?S" for s :: "rat ApiResponse sys" and ls
    using that
    by (simp_all add: init_sys_def new_RequestQueue_def apiQueue_add_def add_def processNext_def
        started_def)
  obtain s1 where c: "refreshStocksData 500 ?S = (Awaiting 0, s1)"
    and s1: "running s1 = [0]" "handles s1 = Map.empty"
      "awaiting s1 0 = Some \<lparr>frame_key = ''stocks_list'', frame_cached = None\<rparr>"
    using refreshStocksData_cases [of 500 ?S] q [OF refl, of "clearAll (storage ?S)"] t0
    by simp
  then obtain s2 where r: "run (\<lambda>v. v) [Settle 0 (Rejected (Error ''down''))] s1 = Some s2"
    and s2: "handles s2 0 = Some (Rejected (Error ''down''))" "awaiting s2 0 = awaiting s1 0"
    by simp
  from s2(2) s1(3) have "awaiting s2 0 = Some \<lparr>frame_key = ''stocks_list'', frame_cached = None\<rparr>"
    by simp
  from resume_enabled [OF this s2(1)] obtain s3 where p: "step (\<lambda>v. v) s2 (Resume 0 501 False) = Some s3"
    by blast
  have q0: "s\<lparr>storage := storage s\<rparr> = s" for s :: "rat ApiResponse sys" by simp
  obtain u1 where c': "fetchWithCache ''stocks_list'' StocksListLogic True 500 ?S = (Awaiting 0, u1)"
    and u1: "running u1 = [0]" "handles u1 = Map.empty"
      "awaiting u1 0 = Some \<lparr>frame_key = ''stocks_list'', frame_cached =
          Some \<lparr>cached_value = ?v, isExpired = False, cached_timestamp = 0\<rparr>\<rparr>"
    using fetchWithCache_cases [of True 500 "''stocks_list''" ?S StocksListLogic]
      q [OF refl, of "storage ?S"] t0 g
    by (simp add: q0)
  then obtain u2 where r': "run (\<lambda>v. v) [Settle 0 (Rejected (Error ''down''))] u1 = Some u2"
    and u2: "handles u2 0 = Some (Rejected (Error ''down''))" "awaiting u2 0 = awaiting u1 0"
    by simp
  from u2(2) u1(3) have "awaiting u2 0 = Some \<lparr>frame_key = ''stocks_list'', frame_cached =
          Some \<lparr>cached_value = ?v, isExpired = False, cached_timestamp = 0\<rparr>\<rparr>"
    by simp
  from resume_enabled [OF this u2(1)] obtain u3 where p': "step (\<lambda>v. v) u2 (Resume 0 501 False) = Some u3"
    by blast
  from c t0 have c0: "refreshStocksData 500 ?S = (Awaiting 0, s1)" by simp
  note th = refresh_has_no_fallback [OF c r, unfolded t0, OF s2(1) p, of 502]
  from th have a: "results s3 0 = Some (Rejected (Error ''down''))"
    "fst (fetchStocks_settled (Rejected (Error ''down'')) 502 s3) =
        Rejected (ApiError ''FETCH_STOCKS_ERROR'' ''down'' (Error ''down''))"
    by simp_all
  from th g c' r' u2(1) p' have b: "results u3 0 = Some (Fulfilled ?v)"
    by (metis cached.select_convs(1))
  from g c r s2(1) p a c' r' u2(1) p' b show ?thesis by blast
qed

section \<open>Percentage deltas\<close>





section \<open>The API functions as events\<close>

text \<open>
  The synchronous parts of the API functions are sequences of events of the system, so
  what holds in every state reached by events holds after them.
\<close>

lemma run_append:
  "run J (es @ es') s = (case run J es s of None \<Rightarrow> None | Some s' \<Rightarrow> run J es' s')"
  by (induction es arbitrary: s) (auto split: option.splits)

lemma maybe_call:
  "\<exists>es. run J es s = Some (if b then snd (fetchWithCache key f force now s) else s)"
proof (cases b)
  case True
  have "run J [Call key f force now] s = Some (snd (fetchWithCache key f force now s))" by simp
  with True show ?thesis by (simp only: if_True) blast
next
  case False
  have "run J [] s = Some s" by simp
  with False show ?thesis by (simp only: if_False) blast
qed

lemma prefetch_is_calls:
  "\<exists>es. run J es s = Some (prefetchAllStocksDetails stocks now s)"
proof (induction stocks arbitrary: s)
  case Nil
  have "run J [] s = Some (prefetchAllStocksDetails [] now s)" by simp
  then show ?case by blast
next
  case (Cons stock stocks)
  let ?c = "code stock"
  let ?s1 = "if \<not> fresh_entry now (''stock_detail_'' @ ?c) (storage s)
             then snd (fetchStockDetail ?c now s) else s"
  let ?s2 = "if \<not> fresh_entry now (''stock_history_'' @ ?c @ ''_30'') (storage s)
             then snd (fetchHistoricalData ?c 30 now ?s1) else ?s1"
  let ?s3 = "if \<not> fresh_entry now (''stock_prediction_'' @ ?c) (storage s)
             then snd (fetchStockPrediction ?c now ?s2) else ?s2"
  have unfold: "prefetchAllStocksDetails (stock # stocks) now s =
                  prefetchAllStocksDetails stocks now ?s3"
    by (simp add: Let_def)
  have "\<exists>es. run J es s = Some ?s1"
    unfolding fetchStockDetail_def Let_def by (rule maybe_call)
  then obtain e1 where 1: "run J e1 s = Some ?s1" by blast
  have "\<exists>es. run J es ?s1 = Some ?s2"
    unfolding fetchHistoricalData_def Let_def by (rule maybe_call)
  then obtain e2 where 2: "run J e2 ?s1 = Some ?s2" by blast
  have "\<exists>es. run J es ?s2 = Some ?s3"
    unfolding fetchStockPrediction_def Let_def by (rule maybe_call)
  then obtain e3 where 3: "run J e3 ?s2 = Some ?s3" by blast
  from Cons.IH [of ?s3] obtain es where 4: "run J es ?s3 = Some (prefetchAllStocksDetails stocks now ?s3)"
    by blast
  from 1 2 3 4 have "run J (e1 @ e2 @ e3 @ es) s = Some (prefetchAllStocksDetails stocks now ?s3)"
    by (simp add: run_append)
  then show ?case unfolding unfold by blast
qed

lemma refresh_is_events:
  "run J [ClearAll, Call ''stocks_list'' StocksListLogic False now] s =
     Some (snd (refreshStocksData now s))"
  by (simp add: refreshStocksData_def fetchStocks_def)

end
